theory Spec2Isabelle
  imports Main "HOL-Library.Sublist" "HOL-Library.Char_ord"
begin

section \<open>JavaScript strings\<close>

text \<open>
  A JavaScript string is a sequence of code units. The model uses \<^typ>\<open>string\<close>, so it
  covers the strings whose code units are below 256 (ASCII and the Latin-1 supplement,
  one \<^typ>\<open>char\<close> per code unit: the letter o with acute accent is \<open>CHR 0xF3\<close>).
  On these, \<open>String.prototype.toLowerCase\<close> maps \<open>A\<close>--\<open>Z\<close> and the Latin-1 capital
  letters (0xC0--0xDE without the multiplication sign 0xD7) to the code unit 32 above.
\<close>

definition code_unit :: "char \<Rightarrow> nat" where
  "code_unit c = of_char c"

text \<open>Characters are ordered by their code units.\<close>

definition is_upper :: "char \<Rightarrow> bool" where
  "is_upper c = (CHR ''A'' \<le> c \<and> c \<le> CHR ''Z'')"

definition is_lower :: "char \<Rightarrow> bool" where
  "is_lower c = (CHR ''a'' \<le> c \<and> c \<le> CHR ''z'')"

definition is_digit :: "char \<Rightarrow> bool" where
  "is_digit c = (CHR ''0'' \<le> c \<and> c \<le> CHR ''9'')"

definition is_alnum :: "char \<Rightarrow> bool" where
  "is_alnum c = (is_upper c \<or> is_lower c \<or> is_digit c)"

definition is_latin1_upper :: "char \<Rightarrow> bool" where
  "is_latin1_upper c = (CHR 0xC0 \<le> c \<and> c \<le> CHR 0xDE \<and> c \<noteq> CHR 0xD7)"

definition lower_char :: "char \<Rightarrow> char" where
  "lower_char c =
     (if is_upper c \<or> is_latin1_upper c then char_of (code_unit c + 32) else c)"

definition toLowerCase :: "string \<Rightarrow> string" where
  "toLowerCase s = map lower_char s"

text \<open>\<open>\s\<close> of a regular expression and the characters \<open>trim\<close> removes: tab, line feed,
  vertical tab, form feed, carriage return, space and the no-break space.\<close>

definition is_space :: "char \<Rightarrow> bool" where
  "is_space c = (c \<in> set [CHR 0x09, CHR 0x0A, CHR 0x0B, CHR 0x0C, CHR 0x0D, CHR 0x20, CHR 0xA0])"

text \<open>The line terminators, which \<open>.\<close> of a regular expression does not match.\<close>

definition is_line_terminator :: "char \<Rightarrow> bool" where
  "is_line_terminator c = (c = CHR 0x0A \<or> c = CHR 0x0D)"

definition trim :: "string \<Rightarrow> string" where
  "trim s = rev (dropWhile is_space (rev (dropWhile is_space s)))"

text \<open>\<open>s.includes(p)\<close>, \<open>s.endsWith(p)\<close>, \<open>s.startsWith(p)\<close>.\<close>

fun str_includes :: "string \<Rightarrow> string \<Rightarrow> bool" where
  "str_includes [] p = (p = [])"
| "str_includes (c # cs) p = (prefix p (c # cs) \<or> str_includes cs p)"

definition endsWith :: "string \<Rightarrow> string \<Rightarrow> bool" where
  "endsWith s p = prefix (rev p) (rev s)"

definition startsWith :: "string \<Rightarrow> string \<Rightarrow> bool" where
  "startsWith s p = prefix p s"

text \<open>\<open>s.replace(p, r)\<close> with a string pattern: the first occurrence only.\<close>

fun replace_first :: "string \<Rightarrow> string \<Rightarrow> string \<Rightarrow> string" where
  "replace_first p r [] = (if p = [] then r else [])"
| "replace_first p r (c # cs) =
     (if prefix p (c # cs) then r @ drop (length p) (c # cs)
      else c # replace_first p r cs)"

text \<open>\<open>s.replace(/-+/g, '-')\<close>: every maximal run of hyphens becomes one hyphen.\<close>

fun collapse_hyphens :: "string \<Rightarrow> string" where
  "collapse_hyphens (x # y # xs) =
     (if x = CHR ''-'' \<and> y = CHR ''-'' then collapse_hyphens (y # xs)
      else x # collapse_hyphens (y # xs))"
| "collapse_hyphens xs = xs"

text \<open>\<open>s.replace(/^-|-$/g, '')\<close>: one hyphen at the start and one at the end are removed
  (the second alternative can only match a hyphen that the first has not consumed).\<close>

definition trim_hyphen :: "string \<Rightarrow> string" where
  "trim_hyphen s =
     (let s1 = (case s of [] \<Rightarrow> [] | c # cs \<Rightarrow> if c = CHR ''-'' then cs else c # cs)
      in if s1 \<noteq> [] \<and> last s1 = CHR ''-'' then butlast s1 else s1)"

text \<open>\<open>s.replace(/^\/+|\/+$/g, '')\<close>: the slashes at the start and at the end.\<close>

definition strip_slashes :: "string \<Rightarrow> string" where
  "strip_slashes s =
     rev (dropWhile (\<lambda>c. c = CHR ''/'') (rev (dropWhile (\<lambda>c. c = CHR ''/'') s)))"

section \<open>Content processor: slugs\<close>

definition baseUrl :: string where
  "baseUrl = ''https://obraabc.org''"

text \<open>The class \<open>[a-z0-9-]\<close>.\<close>

definition slug_char :: "char \<Rightarrow> bool" where
  "slug_char c = (is_lower c \<or> is_digit c \<or> c = CHR ''-'')"

text \<open>\<open>s.replace(/[^a-z0-9-]/g, '-')\<close>\<close>

definition hyphenate :: "string \<Rightarrow> string" where
  "hyphenate s = map (\<lambda>c. if slug_char c then c else CHR ''-'') s"

definition strip_base :: "string \<Rightarrow> string" where
  "strip_base url = strip_slashes (replace_first baseUrl [] url)"

definition createSlug :: "string \<Rightarrow> string" where
  "createSlug url =
     (let slug = strip_base url
      in if slug = [] then ''index''
         else trim_hyphen (collapse_hyphens (hyphenate (toLowerCase slug))))"

section \<open>Content processor: titles\<close>

text \<open>
  \<open>/\s*C\s*.*$/\<close> for a separator character \<open>C\<close> that is not white space. A match that
  starts at the first character of \<open>s\<close> consumes the white space, then \<open>C\<close>, then white
  space again (line terminators included), and \<open>.*\<close> must reach the end of the string
  without crossing a line terminator.
\<close>

definition separator_matches :: "char \<Rightarrow> string \<Rightarrow> bool" where
  "separator_matches sep s =
     (case dropWhile is_space s of
        [] \<Rightarrow> False
      | c # r \<Rightarrow> c = sep \<and> \<not> list_ex is_line_terminator (dropWhile is_space r))"

text \<open>\<open>s.replace(/\s*C\s*.*$/, '')\<close>: the leftmost position where the expression matches;
  the match runs to the end of the string, so everything from there on is removed.\<close>

fun cut_from_separator :: "char \<Rightarrow> string \<Rightarrow> string" where
  "cut_from_separator sep [] = []"
| "cut_from_separator sep (c # cs) =
     (if separator_matches sep (c # cs) then [] else c # cut_from_separator sep cs)"

definition cleanTitle :: "string \<Rightarrow> string" where
  "cleanTitle title =
     trim (cut_from_separator (CHR ''-'') (cut_from_separator (CHR ''|'') title))"

section \<open>Content processor: page records, categories and the exclusion predicate\<close>

record meta =
  description :: string
  ogTitle :: string
  ogDescription :: string
  canonical :: string

text \<open>
  One element of \<open>pages-data.json\<close>. \<open>title\<close> is \<open>None\<close> when the property is \<open>null\<close> or
  absent; \<open>content\<close> holds \<open>content.main\<close> and is \<open>None\<close> when the page has no \<open>content\<close>
  object; \<open>meta\<close> is \<open>None\<close> when the page has no \<open>meta\<close> object.
\<close>

record pageData =
  url :: string
  title :: "string option"
  content :: "string option"
  meta :: "meta option"

text \<open>\<open>pageData.title || ''\<close>\<close>

definition title_or_empty :: "pageData \<Rightarrow> string" where
  "title_or_empty p = (case title p of None \<Rightarrow> [] | Some t \<Rightarrow> t)"

definition determineContentType :: "pageData \<Rightarrow> string" where
  "determineContentType p =
     (let u = toLowerCase (url p); t = toLowerCase (title_or_empty p)
      in if str_includes u ''/blog/'' \<or> str_includes u ''/news/'' \<or> str_includes u ''/artigo/'' \<or>
            str_includes u ''/post/'' \<or> str_includes t ''artigo'' then ''article''
         else if str_includes u ''/servico'' \<or> str_includes u ''/service'' \<or>
            str_includes t (''servi'' @ [CHR 0xE7] @ ''o'') then ''service''
         else if str_includes u ''/sobre'' \<or> str_includes u ''/about'' \<or> str_includes t ''sobre''
           then ''about''
         else if str_includes u ''/contato'' \<or> str_includes u ''/contact'' \<or>
            str_includes t ''contacto'' then ''contact''
         else if str_includes u ''/recurso'' \<or> str_includes u ''/resource'' \<or>
            str_includes u ''/documento'' then ''resource''
         else ''page'')"

definition assetExtensions :: "string list" where
  "assetExtensions =
     [''.jpg'', ''.jpeg'', ''.png'', ''.gif'', ''.webp'', ''.svg'', ''.ico'',
      ''.pdf'', ''.doc'', ''.docx'', ''.xls'', ''.xlsx'', ''.ppt'', ''.pptx'',
      ''.zip'', ''.rar'', ''.tar'', ''.gz'',
      ''.mp3'', ''.mp4'', ''.avi'', ''.mov'', ''.wmv'',
      ''.css'', ''.js'', ''.xml'', ''.json'']"

definition skipPatterns :: "string list" where
  "skipPatterns =
     [''/feed/'', ''/rss/'', ''/sitemap'', ''/robots.txt'',
      ''/wp-admin/'', ''/wp-includes/'', ''/wp-content/plugins/'',
      ''/wp-json/'', ''?rest_route='',
      ''?preview='', ''?p='', ''?attachment_id='']"

text \<open>\<open>s.replace(/<[^>]+>/g, '')\<close>: a \<open><\<close>, at least one character other than \<open>>\<close>, and
  the \<open>>\<close> that ends them; the scan goes on after each match.\<close>

function strip_tags :: "string \<Rightarrow> string" where
  "strip_tags [] = []"
| "strip_tags (c # cs) =
     (let inner = takeWhile (\<lambda>x. x \<noteq> CHR ''>'') cs; rest = dropWhile (\<lambda>x. x \<noteq> CHR ''>'') cs
      in if c = CHR ''<'' \<and> inner \<noteq> [] \<and> rest \<noteq> [] then strip_tags (tl rest)
         else c # strip_tags cs)"
  by pat_completeness auto
termination
proof (relation "measure length")
  fix c :: char and cs inner rest :: string
  assume r: "rest = dropWhile (\<lambda>x. x \<noteq> CHR ''>'') cs" and "c = CHR ''<'' \<and> inner \<noteq> [] \<and> rest \<noteq> []"
  have "length (tl rest) \<le> length rest" by simp
  also have "\<dots> \<le> length cs" unfolding r by (rule length_dropWhile_le)
  finally show "(tl rest, c # cs) \<in> measure length" by simp
qed simp_all

text \<open>The case-insensitive flag \<open>i\<close> folds the ASCII letters only (a code unit above
  127 is never folded onto an ASCII one).\<close>

definition ascii_lower :: "string \<Rightarrow> string" where
  "ascii_lower s = map (\<lambda>c. if is_upper c then char_of (code_unit c + 32) else c) s"

text \<open>\<open>/^\d+x\d+$/\<close>\<close>

definition dimensions_pattern :: "string \<Rightarrow> bool" where
  "dimensions_pattern s =
     (takeWhile is_digit s \<noteq> [] \<and>
      (case dropWhile is_digit s of
         [] \<Rightarrow> False
       | c # r \<Rightarrow> c = CHR ''x'' \<and> r \<noteq> [] \<and> list_all is_digit r))"

text \<open>\<open>/\.(jpe?g|png|gif|pdf)$/i\<close>\<close>

definition extension_pattern :: "string \<Rightarrow> bool" where
  "extension_pattern s =
     list_ex (endsWith (ascii_lower s)) [''.jpg'', ''.jpeg'', ''.png'', ''.gif'', ''.pdf'']"

text \<open>\<open>/^img_\d+/i\<close>\<close>

definition camera_pattern :: "string \<Rightarrow> bool" where
  "camera_pattern s =
     (startsWith (ascii_lower s) ''img_'' \<and>
      (case drop 4 s of [] \<Rightarrow> False | c # r \<Rightarrow> is_digit c))"

text \<open>\<open>/^imagem\d+$/i\<close>\<close>

definition imagem_pattern :: "string \<Rightarrow> bool" where
  "imagem_pattern s =
     (startsWith (ascii_lower s) ''imagem'' \<and> drop 6 s \<noteq> [] \<and> list_all is_digit (drop 6 s))"

definition assetTitlePatterns :: "(string \<Rightarrow> bool) list" where
  "assetTitlePatterns = [dimensions_pattern, extension_pattern, camera_pattern, imagem_pattern]"

text \<open>The console lines of the predicate are left out; it returns what the source returns.\<close>

definition isValidContentPage :: "pageData \<Rightarrow> bool" where
  "isValidContentPage p =
     (let u = toLowerCase (url p);
          t = toLowerCase (title_or_empty p);
          hasAssetExtension = list_ex (\<lambda>ext. endsWith u ext) assetExtensions
      in if hasAssetExtension then False
         else if str_includes u ''/wp-content/uploads/'' then False
         else if list_ex (\<lambda>pattern. str_includes u pattern) skipPatterns then False
         else
           let contentText =
                 (case content p of
                    None \<Rightarrow> []
                  | Some m \<Rightarrow> if m = [] then [] else trim (strip_tags m))
           in if length contentText < 50 \<and> hasAssetExtension then False
              else if list_ex (\<lambda>pattern. pattern t \<or> pattern (title_or_empty p))
                        assetTitlePatterns then False
              else True)"

section \<open>Content processor: the page loop\<close>

datatype failure =
    TypeError string \<comment> \<open>a property read on \<open>undefined\<close> or \<open>null\<close>; the property's name\<close>
  | FsError string \<comment> \<open>a rejected file-system call; its message\<close>

text \<open>
  What the processor takes from outside: the DOM pass of \<open>extractAndCleanContent\<close> over
  \<open>content.main\<close>, the text \<open>createMarkdownFile\<close> builds for a page (front matter, dates
  and body are not modelled further), and the file system's answer to \<open>fs.writeFile\<close>
  for a path (\<open>None\<close>: the write succeeds).
\<close>

record processor_env =
  domPass :: "string \<Rightarrow> string"
  createMarkdownFile :: "pageData \<Rightarrow> string \<Rightarrow> string"
  writeFile_error :: "string \<Rightarrow> string option"

record processedPage =
  slug :: string
  pageType :: string
  originalUrl :: string
  cleanedTitle :: string
  outputPath :: string

text \<open>The processor object has \<open>processedPages\<close> and no error list. \<open>written\<close> are the
  files of \<open>src/content\<close> in the order of their writes, \<open>console_error\<close> the lines of
  \<open>console.error\<close> (URL and failure).\<close>

record processor =
  processedPages :: "processedPage list"
  written :: "(string \<times> string) list"
  console_error :: "(string \<times> failure) list"

definition join :: "string list \<Rightarrow> string" where
  "join parts = concat (case parts of [] \<Rightarrow> [] | x # xs \<Rightarrow> x # map (\<lambda>y. ''/'' @ y) xs)"

text \<open>The body of the \<open>try\<close> block of \<open>processPage\<close>, in the order in which the source
  evaluates: an exception is \<open>Inl\<close>.\<close>

definition tryProcessPage :: "processor_env \<Rightarrow> pageData \<Rightarrow> failure + (processedPage \<times> string)" where
  "tryProcessPage env p =
     (let slug = createSlug (url p);
          contentType = determineContentType p
      in case content p of
           None \<Rightarrow> Inl (TypeError ''main'')
         | Some m \<Rightarrow>
             let processedContent = domPass env m
             in (case title p of
                   None \<Rightarrow> Inl (TypeError ''replace'')
                 | Some t \<Rightarrow>
                     (case meta p of
                        None \<Rightarrow> Inl (TypeError ''description'')
                      | Some _ \<Rightarrow>
                          let markdownContent = createMarkdownFile env p processedContent;
                              outputDir = (if contentType = ''article'' then ''articles'' else ''pages'');
                              path = join [''src/content'', outputDir, slug @ ''.md'']
                          in (case writeFile_error env path of
                                Some e \<Rightarrow> Inl (FsError e)
                              | None \<Rightarrow>
                                  Inr (\<lparr>slug = slug, pageType = contentType, originalUrl = url p,
                                         cleanedTitle = cleanTitle t, outputPath = path\<rparr>,
                                       markdownContent)))))"

definition processPage :: "processor_env \<Rightarrow> processor \<Rightarrow> pageData \<Rightarrow> processor" where
  "processPage env s p =
     (case tryProcessPage env p of
        Inr (entry, text) \<Rightarrow>
          s\<lparr>written := written s @ [(outputPath entry, text)],
            processedPages := processedPages s @ [entry]\<rparr>
      | Inl e \<Rightarrow> s\<lparr>console_error := console_error s @ [(url p, e)]\<rparr>)"

definition new_processor :: processor where
  "new_processor = \<lparr>processedPages = [], written = [], console_error = []\<rparr>"

text \<open>The loop of \<open>processAllContent\<close> over the pages that pass the filter. Reading
  \<open>pages-data.json\<close> comes before it; of the two steps after it,
  \<open>generateContentConfig\<close> writes a constant text and \<open>generateRedirectsMapping\<close>, below,
  depends on \<open>processedPages\<close> only.\<close>

definition processAllContent :: "processor_env \<Rightarrow> pageData list \<Rightarrow> processor" where
  "processAllContent env allPagesData =
     foldl (processPage env) new_processor (filter isValidContentPage allPagesData)"

definition generateRedirectsMapping :: "processor \<Rightarrow> (string \<times> string \<times> nat) list" where
  "generateRedirectsMapping s =
     map (\<lambda>page. (replace_first ''https://obraabc.org'' [] (originalUrl page),
                  ''/'' @ slug page, 301)) (processedPages s)"

text \<open>What a run of the processor leaves behind: the content files and the redirects.\<close>

definition processor_output :: "processor \<Rightarrow> (string \<times> string) list \<times> (string \<times> string \<times> nat) list" where
  "processor_output s = (written s, generateRedirectsMapping s)"

section \<open>Crawler\<close>

record image =
  src :: string
  alt :: string
  width :: nat
  height :: nat

text \<open>
  What the browser does with one URL, as far as \<open>crawlPage\<close> can tell:
  \<open>context.newPage()\<close> throws (outside the \<open>try\<close> block); \<open>page.goto\<close>,
  \<open>page.waitForTimeout\<close> or \<open>extractPageData\<close> throws; \<open>extractLinks\<close> throws after the
  page data was pushed; \<open>extractImages\<close> throws after the links were collected; or all
  steps succeed. A page carries its data, the \<open>href\<close>s of its anchors and its images.
\<close>

datatype outcome =
    NewPageFails string
  | NavigationFails string
  | LinksFail pageData string
  | ImagesFail pageData "string list" string
  | Loaded pageData "string list" "image list"

text \<open>The world of a crawl: the URL parser (\<open>new URL(u).hostname\<close>, \<open>None\<close> when the
  constructor throws) and the site.\<close>

record web =
  hostname :: "string \<Rightarrow> string option"
  visit :: "string \<Rightarrow> outcome"

text \<open>The sets of the crawler are JavaScript \<open>Set\<close>s: lists without repetition in the
  order of insertion. The elements of \<open>images\<close> are fresh objects, so that set never
  merges two of them. \<open>internalLinks\<close> is \<open>[]\<close> while the property is undefined.\<close>

record crawler =
  this_baseUrl :: string
  visitedUrls :: "string list"
  pagesData :: "pageData list"
  images :: "image list"
  errors :: "(string \<times> string) list"
  internalLinks :: "string list"

definition set_add :: "'a list \<Rightarrow> 'a \<Rightarrow> 'a list" where
  "set_add xs x = (if x \<in> set xs then xs else xs @ [x])"

definition new_crawler :: "string \<Rightarrow> crawler" where
  "new_crawler base =
     \<lparr>this_baseUrl = base, visitedUrls = [], pagesData = [], images = [], errors = [],
      internalLinks = []\<rparr>"

definition isInternalLink :: "web \<Rightarrow> crawler \<Rightarrow> string \<Rightarrow> bool" where
  "isInternalLink w s u =
     (case hostname w u of
        None \<Rightarrow> False
      | Some h \<Rightarrow> (case hostname w (this_baseUrl s) of None \<Rightarrow> False | Some b \<Rightarrow> h = b))"

definition extractLinks :: "string list \<Rightarrow> string list" where
  "extractLinks hrefs =
     filter (\<lambda>href. href \<noteq> [] \<and> \<not> startsWith href ''mailto:'' \<and> \<not> startsWith href ''tel:'') hrefs"

definition extractImages :: "image list \<Rightarrow> image list" where
  "extractImages imgs = filter (\<lambda>img. src img \<noteq> []) imgs"

definition add_links :: "web \<Rightarrow> crawler \<Rightarrow> string list \<Rightarrow> crawler" where
  "add_links w s hrefs =
     s\<lparr>internalLinks := fold (\<lambda>link acc. set_add acc link)
                           (filter (isInternalLink w s) (extractLinks hrefs)) (internalLinks s)\<rparr>"

text \<open>\<open>crawlPage\<close> returns the crawler and, when the promise is rejected, the reason.\<close>

definition crawlPage :: "web \<Rightarrow> crawler \<Rightarrow> string \<Rightarrow> crawler \<times> string option" where
  "crawlPage w s u =
     (if u \<in> set (visitedUrls s) then (s, None)
      else
        let s1 = s\<lparr>visitedUrls := set_add (visitedUrls s) u\<rparr>
        in case visit w u of
             NewPageFails e \<Rightarrow> (s1, Some e)
           | NavigationFails e \<Rightarrow> (s1\<lparr>errors := errors s1 @ [(u, e)]\<rparr>, None)
           | LinksFail d e \<Rightarrow>
               (s1\<lparr>pagesData := pagesData s1 @ [d\<lparr>url := u\<rparr>],
                   errors := errors s1 @ [(u, e)]\<rparr>, None)
           | ImagesFail d hrefs e \<Rightarrow>
               (let s2 = add_links w (s1\<lparr>pagesData := pagesData s1 @ [d\<lparr>url := u\<rparr>]\<rparr>) hrefs
                in (s2\<lparr>errors := errors s2 @ [(u, e)]\<rparr>, None))
           | Loaded d hrefs imgs \<Rightarrow>
               (let s2 = add_links w (s1\<lparr>pagesData := pagesData s1 @ [d\<lparr>url := u\<rparr>]\<rparr>) hrefs
                in (s2\<lparr>images := images s2 @ extractImages imgs\<rparr>, None)))"

text \<open>
  \<open>Promise.allSettled(batch.map(url => this.crawlPage(context, url)))\<close>: a rejection is
  dropped. The calls of one batch run concurrently; each tests and extends
  \<open>visitedUrls\<close> before its first \<open>await\<close>. The model runs them one after the other,
  in the order of the batch.
\<close>

fun allSettled :: "web \<Rightarrow> crawler \<Rightarrow> string list \<Rightarrow> crawler" where
  "allSettled w s [] = s"
| "allSettled w s (u # us) = allSettled w (fst (crawlPage w s u)) us"

text \<open>The \<open>for\<close> loop over the slices of five of \<open>currentBatch\<close>.\<close>

function crawlSlices :: "web \<Rightarrow> crawler \<Rightarrow> string list \<Rightarrow> crawler" where
  "crawlSlices w s currentBatch =
     (if currentBatch = [] then s
      else crawlSlices w (allSettled w s (take 5 currentBatch)) (drop 5 currentBatch))"
  by pat_completeness auto
termination
  by (relation "measure (\<lambda>(w, s, currentBatch). length currentBatch)") auto

declare crawlSlices.simps [simp del]

definition frontier :: "crawler \<Rightarrow> string list" where
  "frontier s = filter (\<lambda>u. u \<notin> set (visitedUrls s)) (internalLinks s)"

text \<open>The \<open>while\<close> loop of \<open>crawlSite\<close>; \<open>None\<close> is a loop that never ends.\<close>

partial_function (option) crawlLoop :: "web \<Rightarrow> crawler \<Rightarrow> crawler option" where
  "crawlLoop w s =
     (if frontier s = [] then Some s else crawlLoop w (crawlSlices w s (frontier s)))"

declare crawlLoop.simps [code]

text \<open>\<open>crawlSite\<close>: \<open>Inl\<close> when the first \<open>crawlPage\<close> is rejected (the exception leaves
  \<open>crawlSite\<close> and \<open>main\<close> prints it).\<close>

definition crawlSite :: "web \<Rightarrow> string \<Rightarrow> (string + crawler) option" where
  "crawlSite w base =
     (case crawlPage w (new_crawler base) base of
        (s, Some e) \<Rightarrow> Some (Inl e)
      | (s, None) \<Rightarrow> map_option Inr (crawlLoop w s))"

section \<open>Node's \<open>path\<close> module (POSIX)\<close>

text \<open>\<open>path.basename(p)\<close>: the last portion of the path, trailing slashes ignored.\<close>

definition basename :: "string \<Rightarrow> string" where
  "basename p =
     rev (takeWhile (\<lambda>c. c \<noteq> CHR ''/'') (dropWhile (\<lambda>c. c = CHR ''/'') (rev p)))"

text \<open>\<open>path.extname(p)\<close>: from the last dot of the last portion to its end; empty when
  there is no dot, when the only dot is the first character, and for \<open>..\<close>.\<close>

definition extname :: "string \<Rightarrow> string" where
  "extname p =
     (let b = basename p;
          letters = rev (takeWhile (\<lambda>c. c \<noteq> CHR ''.'') (rev b));
          stem = take (length b - length letters - 1) b
      in if stem = [] \<or> b = ''..'' \<or> CHR ''.'' \<notin> set b then [] else CHR ''.'' # letters)"

text \<open>\<open>path.basename(p, ext)\<close>: the suffix is removed when it ends the last portion
  without being all of it; a path equal to the suffix gives the empty string.\<close>

definition basename_ext :: "string \<Rightarrow> string \<Rightarrow> string" where
  "basename_ext p ext =
     (let b = basename p
      in if ext \<noteq> [] \<and> ext = p then []
         else if ext \<noteq> [] \<and> length ext < length b \<and> endsWith b ext
           then take (length b - length ext) b
         else b)"

section \<open>Bulk image fetcher\<close>

text \<open>\<open>String(n)\<close> for a natural number: its decimal digits.\<close>

fun string_of_nat :: "nat \<Rightarrow> string" where
  "string_of_nat n =
     (if n < 10 then [char_of (48 + n)]
      else string_of_nat (n div 10) @ [char_of (48 + n mod 10)])"

declare string_of_nat.simps [simp del]

text \<open>The class \<open>[a-z0-9.-]\<close>.\<close>

definition filename_char :: "char \<Rightarrow> bool" where
  "filename_char c = (is_lower c \<or> is_digit c \<or> c = CHR ''.'' \<or> c = CHR ''-'')"

text \<open>\<open>createSafeFilename\<close> reads the clock: \<open>now\<close> is the value of \<open>Date.now()\<close>.\<close>

definition createSafeFilename :: "nat \<Rightarrow> string \<Rightarrow> string" where
  "createSafeFilename now pathname =
     (let filename0 = basename pathname;
          filename1 = (if extname filename0 = [] then filename0 @ ''.jpg'' else filename0);
          filename = trim_hyphen (collapse_hyphens
                       (map (\<lambda>c. if filename_char c then c else CHR ''-'') (toLowerCase filename1)));
          ext = extname filename;
          base = basename_ext filename ext
      in base @ ''-'' @ string_of_nat now @ ext)"

text \<open>An element of \<open>images-list.json\<close>: a string or an object.\<close>

datatype imageData = UrlString string | ImageObject image

definition imageUrl_of :: "imageData \<Rightarrow> string" where
  "imageUrl_of d = (case d of UrlString u \<Rightarrow> u | ImageObject img \<Rightarrow> src img)"

text \<open>
  How \<open>downloadImage\<close> ends: the stream finishes; the status is not 200 (no file is
  created); the file stream fails (\<open>fs.unlink(outputPath)\<close> removes what is at the
  output path); the request times out (the flag says whether the response had begun,
  that is, whether a file was created: the time-out handler removes nothing).
\<close>

datatype download = Finished | HttpStatus string | StreamError string | TimedOut bool

record fetcher_env =
  pathname :: "string \<Rightarrow> string option" \<comment> \<open>\<open>new URL(u).pathname\<close>, \<open>None\<close> when it throws\<close>
  downloadImage :: "string \<Rightarrow> download"

record downloaded =
  dl_originalUrl :: string
  dl_filename :: string
  dl_path :: string
  dl_alt :: string
  dl_size :: "(nat \<times> nat) option"

text \<open>\<open>outputDir\<close> are the paths present in the output directory.\<close>

record fetcher =
  outputDir :: "string list"
  downloadedImages :: "downloaded list"
  fetch_errors :: "(string \<times> string) list"

text \<open>
  A call of \<open>processImage\<close> has two parts. The first runs when the call is made, up to
  and including \<open>await fs.access(outputPath)\<close>: the call returns (empty URL, data URL
  or existing destination file), or \<open>new URL\<close> throws and the \<open>catch\<close> records it, or
  the download is due. \<open>present\<close> are the paths that exist when the test is made.
\<close>

datatype started =
    Returned
  | Threw string string \<comment> \<open>URL and message\<close>
  | Downloading imageData string string string \<comment> \<open>element, URL, file name, output path\<close>

definition accessImage :: "fetcher_env \<Rightarrow> string list \<Rightarrow> nat \<Rightarrow> imageData \<Rightarrow> started" where
  "accessImage env present now d =
     (let imageUrl = imageUrl_of d
      in if imageUrl = [] \<or> startsWith imageUrl ''data:'' then Returned
         else
           (case pathname env imageUrl of
              None \<Rightarrow> Threw imageUrl ''Invalid URL''
            | Some pn \<Rightarrow>
                let filename = createSafeFilename now pn;
                    path = join [''dist/assets/images'', filename]
                in if path \<in> set present then Returned
                   else Downloading d imageUrl filename path))"

text \<open>The second part: the download, and the push to \<open>downloadedImages\<close> or to \<open>errors\<close>.\<close>

definition settleImage :: "fetcher_env \<Rightarrow> fetcher \<Rightarrow> started \<Rightarrow> fetcher" where
  "settleImage env s call =
     (case call of
        Returned \<Rightarrow> s
      | Threw imageUrl e \<Rightarrow> s\<lparr>fetch_errors := fetch_errors s @ [(imageUrl, e)]\<rparr>
      | Downloading d imageUrl filename path \<Rightarrow>
          (case downloadImage env imageUrl of
             Finished \<Rightarrow>
               s\<lparr>outputDir := set_add (outputDir s) path,
                 downloadedImages := downloadedImages s @
                   [\<lparr>dl_originalUrl = imageUrl, dl_filename = filename, dl_path = path,
                     dl_alt = (case d of UrlString _ \<Rightarrow> [] | ImageObject img \<Rightarrow> alt img),
                     dl_size = (case d of UrlString _ \<Rightarrow> None
                                | ImageObject img \<Rightarrow> Some (width img, height img))\<rparr>]\<rparr>
           | HttpStatus e \<Rightarrow> s\<lparr>fetch_errors := fetch_errors s @ [(imageUrl, e)]\<rparr>
           | StreamError e \<Rightarrow>
               s\<lparr>outputDir := removeAll path (outputDir s),
                 fetch_errors := fetch_errors s @ [(imageUrl, e)]\<rparr>
           | TimedOut begun \<Rightarrow>
               s\<lparr>outputDir := (if begun then set_add (outputDir s) path else outputDir s),
                 fetch_errors := fetch_errors s @ [(imageUrl, ''Download timeout'')]\<rparr>))"

text \<open>A call of \<open>processImage\<close> that runs alone, at clock reading \<open>now\<close>.\<close>

definition processImage :: "fetcher_env \<Rightarrow> nat \<Rightarrow> fetcher \<Rightarrow> imageData \<Rightarrow> fetcher" where
  "processImage env now s d = settleImage env s (accessImage env (outputDir s) now d)"






section \<open>Media transcoder\<close>

record size_class =
  class_width :: "nat option"
  suffix :: string

definition CONFIG_sizes :: "size_class list" where
  "CONFIG_sizes =
     [\<lparr>class_width = Some 400, suffix = ''-sm''\<rparr>,
      \<lparr>class_width = Some 800, suffix = ''-md''\<rparr>,
      \<lparr>class_width = Some 1200, suffix = ''-lg''\<rparr>,
      \<lparr>class_width = None, suffix = []\<rparr>]"

text \<open>A file is its modification time and what it holds: a complete image of some
  width in pixels, or the beginning of one.\<close>

datatype body = Picture nat | Truncated

record file_entry =
  mtime :: nat
  body :: body

type_synonym disk = "string \<Rightarrow> file_entry option"

text \<open>
  What the transcoder takes from outside: whether \<open>import('sharp')\<close> succeeds; how the
  encoder's \<open>toFile(target)\<close> ends for a target path (it completes; it throws before it
  has touched the target; it throws after it has begun to write the target); and the
  answer of \<open>copyFile\<close> for a destination (\<open>None\<close>: the copy succeeds).
  The transcoder hands the encoder the final path of a variant and nothing else: the
  encoder opens and writes that path itself.
\<close>

datatype encoding = Completes | Refuses string | Breaks string

record transcoder_env =
  sharp_available :: bool
  encoder :: "string \<Rightarrow> encoding"
  copyFile_error :: "string \<Rightarrow> string option"

record transcoder =
  files :: disk
  messages :: "(string \<times> string) list" \<comment> \<open>the lines of \<open>console.error\<close>: file name and message\<close>

definition getFileModTime :: "disk \<Rightarrow> string \<Rightarrow> nat option" where
  "getFileModTime d path = map_option mtime (d path)"

text \<open>\<open>CONFIG.skipIfNewer\<close> is \<open>true\<close>.\<close>

definition shouldSkipOptimization :: "disk \<Rightarrow> string \<Rightarrow> string \<Rightarrow> bool" where
  "shouldSkipOptimization d sourcePath targetPath =
     (case getFileModTime d sourcePath of
        None \<Rightarrow> False
      | Some sourceTime \<Rightarrow>
          (case getFileModTime d targetPath of
             None \<Rightarrow> False
           | Some targetTime \<Rightarrow> targetTime > sourceTime))"

text \<open>\<open>if (size.width) pipeline.resize(size.width, null, {withoutEnlargement: true, fit:
  'inside'})\<close>: the width of the output for a source of width \<open>w\<close>.\<close>

definition resized_width :: "nat option \<Rightarrow> nat \<Rightarrow> nat" where
  "resized_width cw w = (case cw of None \<Rightarrow> w | Some t \<Rightarrow> if t = 0 then w else min t w)"

text \<open>\<open>sharp(inputPath)...toFile(target)\<close> at time \<open>now\<close>: the exception if any, and the
  disk afterwards.\<close>

definition toFile :: "transcoder_env \<Rightarrow> nat \<Rightarrow> disk \<Rightarrow> string \<Rightarrow> nat option \<Rightarrow> string \<Rightarrow> string option \<times> disk" where
  "toFile env now d inputPath cw target =
     (case d inputPath of
        None \<Rightarrow> (Some ''Input file is missing'', d)
      | Some f \<Rightarrow>
          (case body f of
             Truncated \<Rightarrow> (Some ''Input file contains unsupported image format'', d)
           | Picture w \<Rightarrow>
               (case encoder env target of
                  Completes \<Rightarrow> (None, d(target \<mapsto> \<lparr>mtime = now, body = Picture (resized_width cw w)\<rparr>))
                | Refuses e \<Rightarrow> (Some e, d)
                | Breaks e \<Rightarrow> (Some e, d(target \<mapsto> \<lparr>mtime = now, body = Truncated\<rparr>)))))"

text \<open>One of the two blocks of the loop body: the test, the \<open>try\<close> and its \<open>catch\<close>.\<close>

definition generate :: "transcoder_env \<Rightarrow> nat \<Rightarrow> string \<Rightarrow> nat option \<Rightarrow> transcoder \<Rightarrow> string \<Rightarrow> string \<Rightarrow> transcoder" where
  "generate env now inputPath cw st outDir name =
     (let target = join [outDir, name]
      in if shouldSkipOptimization (files st) inputPath target then st
         else
           (case toFile env now (files st) inputPath cw target of
              (None, d) \<Rightarrow> st\<lparr>files := d\<rparr>
            | (Some e, d) \<Rightarrow> st\<lparr>files := d, messages := messages st @ [(name, e)]\<rparr>))"

definition optimizeSize :: "transcoder_env \<Rightarrow> nat \<Rightarrow> string \<Rightarrow> string \<Rightarrow> string \<Rightarrow> transcoder \<Rightarrow> size_class \<Rightarrow> transcoder" where
  "optimizeSize env now inputPath outDir filename st sz =
     (let nameWithoutExt = basename_ext filename (extname filename);
          webpName = nameWithoutExt @ suffix sz @ ''.webp'';
          st1 = generate env now inputPath (class_width sz) st outDir webpName;
          jpegName = nameWithoutExt @ suffix sz @ ''.jpg''
      in generate env now inputPath (class_width sz) st1 outDir jpegName)"

definition copyImageWithoutOptimization :: "transcoder_env \<Rightarrow> nat \<Rightarrow> string \<Rightarrow> string \<Rightarrow> string \<Rightarrow> transcoder \<Rightarrow> string + transcoder" where
  "copyImageWithoutOptimization env now inputPath outDir filename st =
     (let outputPath = join [outDir, filename]
      in if shouldSkipOptimization (files st) inputPath outputPath then Inr st
         else
           (case files st inputPath of
              None \<Rightarrow> Inl ''ENOENT''
            | Some f \<Rightarrow>
                (case copyFile_error env outputPath of
                   Some e \<Rightarrow> Inl e
                 | None \<Rightarrow> Inr (st\<lparr>files := (files st)(outputPath \<mapsto> f\<lparr>mtime := now\<rparr>)\<rparr>))))"

text \<open>\<open>optimizeWithSharp\<close>: \<open>Inl\<close> is an exception that leaves the function (only the
  copy of the fall-back can throw).\<close>

definition optimizeWithSharp :: "transcoder_env \<Rightarrow> nat \<Rightarrow> string \<Rightarrow> string \<Rightarrow> string \<Rightarrow> transcoder \<Rightarrow> string + transcoder" where
  "optimizeWithSharp env now inputPath outDir filename st =
     (if \<not> sharp_available env then copyImageWithoutOptimization env now inputPath outDir filename st
      else Inr (foldl (optimizeSize env now inputPath outDir filename) st CONFIG_sizes))"

text \<open>The target paths of the loop, in its order.\<close>

definition variantPaths :: "string \<Rightarrow> string \<Rightarrow> string list" where
  "variantPaths outDir filename =
     concat (map (\<lambda>sz. [join [outDir, basename_ext filename (extname filename) @ suffix sz @ ''.webp''],
                        join [outDir, basename_ext filename (extname filename) @ suffix sz @ ''.jpg'']])
                 CONFIG_sizes)"

section \<open>Predicates and inputs of the theorems\<close>

text \<open>A page whose processing throws inside the \<open>try\<close> block of \<open>processPage\<close>.\<close>

definition page_fails :: "processor_env \<Rightarrow> pageData \<Rightarrow> bool" where
  "page_fails env p = (case tryProcessPage env p of Inl _ \<Rightarrow> True | Inr _ \<Rightarrow> False)"

text \<open>The exception that the \<open>catch\<close> of \<open>crawlPage\<close> receives, if any.\<close>

definition caught :: "outcome \<Rightarrow> string option" where
  "caught r =
     (case r of
        NewPageFails e \<Rightarrow> None
      | NavigationFails e \<Rightarrow> Some e
      | LinksFail d e \<Rightarrow> Some e
      | ImagesFail d hrefs e \<Rightarrow> Some e
      | Loaded d hrefs imgs \<Rightarrow> None)"

definition blog_contact_page :: pageData where
  "blog_contact_page =
     \<lparr>url = ''https://obraabc.org/blog/contato/'', title = Some ''Contacto'',
      content = Some ''<p>Fale connosco</p>'', meta = None\<rparr>"

definition pdf_page :: pageData where
  "pdf_page =
     \<lparr>url = ''https://obraabc.org/docs/contas.pdf'', title = Some ''Relatorio de contas'',
      content = Some ''<p>Relatorio</p>'', meta = None\<rparr>"

definition dimensions_page :: pageData where
  "dimensions_page =
     \<lparr>url = ''https://obraabc.org/galeria/foto/'', title = Some ''1920x1080'',
      content = Some ''<img src=x>'', meta = None\<rparr>"

text \<open>A run of the processor in which the file of one page cannot be written.\<close>

definition locked_file_env :: processor_env where
  "locked_file_env =
     \<lparr>domPass = (\<lambda>m. m), createMarkdownFile = (\<lambda>p c. c),
      writeFile_error =
        (\<lambda>path. if path = ''src/content/pages/sobre.md'' then Some ''EACCES'' else None)\<rparr>"

definition about_page :: pageData where
  "about_page =
     \<lparr>url = ''https://obraabc.org/sobre/'', title = Some ''Sobre'',
      content = Some ''<p>Quem somos</p>'',
      meta = Some \<lparr>description = [], ogTitle = [], ogDescription = [], canonical = []\<rparr>\<rparr>"

definition home_page :: pageData where
  "home_page =
     \<lparr>url = ''https://obraabc.org/'', title = Some ''Obra ABC'',
      content = Some ''<p>Bem-vindo</p>'',
      meta = Some \<lparr>description = [], ogTitle = [], ogDescription = [], canonical = []\<rparr>\<rparr>"




text \<open>What one block of the loop leaves at its target path on a disk \<open>d\<close>.\<close>

definition variant_after :: "transcoder_env \<Rightarrow> nat \<Rightarrow> string \<Rightarrow> nat option \<Rightarrow> disk \<Rightarrow> string \<Rightarrow> file_entry option" where
  "variant_after env now inputPath cw d target =
     (if shouldSkipOptimization d inputPath target then d target
      else snd (toFile env now d inputPath cw target) target)"

text \<open>The file names of the loop with their widths, in its order.\<close>

definition variantSteps :: "string \<Rightarrow> (string \<times> nat option) list" where
  "variantSteps filename =
     concat (map (\<lambda>sz. [(basename_ext filename (extname filename) @ suffix sz @ ''.webp'', class_width sz),
                        (basename_ext filename (extname filename) @ suffix sz @ ''.jpg'', class_width sz)])
                 CONFIG_sizes)"

definition always_completes :: transcoder_env where
  "always_completes =
     \<lparr>sharp_available = True, encoder = (\<lambda>target. Completes), copyFile_error = (\<lambda>path. None)\<rparr>"

definition small_source :: transcoder where
  "small_source =
     \<lparr>files = [''src/a.png'' \<mapsto> \<lparr>mtime = 5, body = Picture 300\<rparr>], messages = []\<rparr>"

definition breaks_on_sm_webp :: transcoder_env where
  "breaks_on_sm_webp =
     \<lparr>sharp_available = True,
      encoder = (\<lambda>target. if target = ''out/a-sm.webp'' then Breaks ''EIO'' else Completes),
      copyFile_error = (\<lambda>path. None)\<rparr>"

definition stale_output :: transcoder where
  "stale_output =
     \<lparr>files = [''src/a.png'' \<mapsto> \<lparr>mtime = 5, body = Picture 1600\<rparr>,
               ''out/a-sm.webp'' \<mapsto> \<lparr>mtime = 3, body = Picture 400\<rparr>],
      messages = []\<rparr>"

text \<open>The links of a URL that \<open>crawlPage\<close> gets to see, and those of them it adds to
  \<open>internalLinks\<close> in a crawl that started from \<open>base\<close>.\<close>

definition links_of :: "outcome \<Rightarrow> string list" where
  "links_of r =
     (case r of
        NewPageFails e \<Rightarrow> []
      | NavigationFails e \<Rightarrow> []
      | LinksFail d e \<Rightarrow> []
      | ImagesFail d hrefs e \<Rightarrow> hrefs
      | Loaded d hrefs imgs \<Rightarrow> hrefs)"

definition successors :: "web \<Rightarrow> string \<Rightarrow> string \<Rightarrow> string list" where
  "successors w base u =
     filter (isInternalLink w (new_crawler base)) (extractLinks (links_of (visit w u)))"

text \<open>The URLs that can be reached from the start URL through such links.\<close>

definition reachable :: "web \<Rightarrow> string \<Rightarrow> string set" where
  "reachable w base = {v. (base, v) \<in> {(u, v). v \<in> set (successors w base u)}\<^sup>*}"

text \<open>An outcome that pushes a page record.\<close>

definition has_page :: "outcome \<Rightarrow> bool" where
  "has_page r =
     (case r of
        NewPageFails e \<Rightarrow> False
      | NavigationFails e \<Rightarrow> False
      | LinksFail d e \<Rightarrow> True
      | ImagesFail d hrefs e \<Rightarrow> True
      | Loaded d hrefs imgs \<Rightarrow> True)"

text \<open>What holds of the crawler between two calls of \<open>crawlPage\<close>.\<close>

definition crawl_inv :: "web \<Rightarrow> string \<Rightarrow> crawler \<Rightarrow> bool" where
  "crawl_inv w base s =
     (this_baseUrl s = base \<and> base \<in> set (visitedUrls s) \<and> distinct (visitedUrls s) \<and>
      set (visitedUrls s) \<subseteq> reachable w base \<and>
      set (internalLinks s) = (\<Union>u\<in>set (visitedUrls s). set (successors w base u)) \<and>
      distinct (map url (pagesData s)) \<and>
      set (map url (pagesData s)) = {u \<in> set (visitedUrls s). has_page (visit w u)} \<and>
      distinct (map fst (errors s)) \<and>
      set (map fst (errors s)) = {u \<in> set (visitedUrls s). caught (visit w u) \<noteq> None})"

text \<open>A site with a cycle: the home page links to \<open>/a\<close>, to another host and to a
  mail address; \<open>/a\<close> links back to the home page, to itself and to \<open>/b\<close>; \<open>/b\<close> times
  out.\<close>

definition cyclic_site :: web where
  "cyclic_site =
     \<lparr>hostname = (\<lambda>u. if startsWith u ''https://s/'' then Some ''s''
                        else if startsWith u ''https://x/'' then Some ''x'' else None),
      visit = (\<lambda>u. if u = ''https://s/''
                       then Loaded home_page [''https://s/a'', ''https://x/q'', ''mailto:m''] []
                     else if u = ''https://s/a''
                       then Loaded about_page [''https://s/'', ''https://s/b'', ''https://s/a''] []
                     else if u = ''https://s/b'' then NavigationFails ''timeout''
                     else NavigationFails ''404'')\<rparr>"

text \<open>
  The claim's words for the slug of a non-empty rest: the maximal runs of characters of
  \<open>[a-z0-9]\<close> in the lower-cased rest, joined by single hyphens (every run of other
  characters becomes one hyphen, and none stands at either end).
\<close>

definition slug_alnum :: "char \<Rightarrow> bool" where
  "slug_alnum c = (is_lower c \<or> is_digit c)"

function alnum_runs :: "string \<Rightarrow> string list" where
  "alnum_runs [] = []"
| "alnum_runs (c # cs) =
     (if slug_alnum c then takeWhile slug_alnum (c # cs) # alnum_runs (dropWhile slug_alnum cs)
      else alnum_runs cs)"
  by pat_completeness auto
termination
  by (relation "measure length") (auto simp: length_dropWhile_le less_Suc_eq_le)

fun join_hyphen :: "string list \<Rightarrow> string" where
  "join_hyphen [] = []"
| "join_hyphen [w] = w"
| "join_hyphen (w # ws) = w @ ''-'' @ join_hyphen ws"

text \<open>
  The claim's words for the category: ordered keyword sets, and the first rule that
  matches decides. A rule is the keywords looked for in the lower-cased URL, the
  keywords looked for in the lower-cased title, and the category.
\<close>

definition categoryRules :: "(string list \<times> string list \<times> string) list" where
  "categoryRules =
     [([''/blog/'', ''/news/'', ''/artigo/'', ''/post/''], [''artigo''], ''article''),
      ([''/servico'', ''/service''], [''servi'' @ [CHR 0xE7] @ ''o''], ''service''),
      ([''/sobre'', ''/about''], [''sobre''], ''about''),
      ([''/contato'', ''/contact''], [''contacto''], ''contact''),
      ([''/recurso'', ''/resource'', ''/documento''], [], ''resource'')]"

definition rule_matches :: "pageData \<Rightarrow> string list \<times> string list \<times> string \<Rightarrow> bool" where
  "rule_matches p rule =
     (case rule of (inUrl, inTitle, category) \<Rightarrow>
        list_ex (str_includes (toLowerCase (url p))) inUrl \<or>
        list_ex (str_includes (toLowerCase (title_or_empty p))) inTitle)"

fun first_matching_rule :: "pageData \<Rightarrow> (string list \<times> string list \<times> string) list \<Rightarrow> string" where
  "first_matching_rule p [] = ''page''"
| "first_matching_rule p (rule # rules) =
     (if rule_matches p rule then snd (snd rule) else first_matching_rule p rules)"

definition service_title_page :: pageData where
  "service_title_page =
     \<lparr>url = ''https://obraabc.org/apoio/'', title = Some (''SERVI'' @ [CHR 0xC7] @ ''OS sobre rodas''),
      content = Some ''<p>Apoio</p>'', meta = None\<rparr>"

definition about_contact_page :: pageData where
  "about_contact_page =
     \<lparr>url = ''https://obraabc.org/sobre/contactos/'', title = Some ''Contacto'',
      content = Some ''<p>Onde estamos</p>'', meta = None\<rparr>"

definition contact_resource_page :: pageData where
  "contact_resource_page =
     \<lparr>url = ''https://obraabc.org/recursos/contact/'', title = Some ''Fichas'',
      content = Some ''<p>Fichas</p>'', meta = None\<rparr>"

definition resource_page :: pageData where
  "resource_page =
     \<lparr>url = ''https://obraabc.org/documentos/'', title = Some ''Fichas'',
      content = Some ''<p>Fichas</p>'', meta = None\<rparr>"


section \<open>Facts about the string operations\<close>

lemma lower_char_not_alnum:
  assumes "\<not> is_alnum c"
  shows "\<not> is_lower (lower_char c) \<and> \<not> is_digit (lower_char c)"
proof (cases "is_latin1_upper c")
  case True
  then have range: "192 \<le> code_unit c" "code_unit c \<le> 222"
    by (simp_all add: is_latin1_upper_def less_eq_char_def code_unit_def)
  then have "(of_char (char_of (code_unit c + 32)) :: nat) = code_unit c + 32"
    by simp
  with range True show ?thesis
    by (simp add: lower_char_def is_lower_def is_digit_def less_eq_char_def)
next
  case False
  with assms show ?thesis by (simp add: lower_char_def is_alnum_def)
qed

lemma hyphenate_not_alnum:
  "\<forall>c\<in>set s. \<not> is_alnum c \<Longrightarrow> hyphenate (toLowerCase s) = replicate (length s) (CHR ''-'')"
  by (induction s) (auto simp: hyphenate_def toLowerCase_def slug_char_def dest: lower_char_not_alnum)

lemma collapse_replicate:
  "collapse_hyphens (replicate (Suc n) (CHR ''-'')) = ''-''"
  by (induction n) auto

lemma set_collapse: "set (collapse_hyphens xs) \<subseteq> set xs"
  by (induction xs rule: collapse_hyphens.induct) auto

lemma set_trim_hyphen: "set (trim_hyphen xs) \<subseteq> set xs"
  by (auto simp: trim_hyphen_def Let_def split: list.splits if_splits dest: in_set_butlastD)

lemma hd_collapse: "hd (collapse_hyphens xs) = hd xs"
  by (induction xs rule: collapse_hyphens.induct) auto

lemma collapse_Nil_iff: "collapse_hyphens xs = [] \<longleftrightarrow> xs = []"
  by (induction xs rule: collapse_hyphens.induct) auto

text \<open>After the collapse no hyphen is followed by a hyphen.\<close>

lemma successively_collapse:
  "successively (\<lambda>a b. \<not> (a = CHR ''-'' \<and> b = CHR ''-'')) (collapse_hyphens xs)"
proof (induction xs rule: collapse_hyphens.induct)
  case (1 x y xs)
  have "hd (collapse_hyphens (y # xs)) = y" "collapse_hyphens (y # xs) \<noteq> []"
    using hd_collapse [of "y # xs"] collapse_Nil_iff [of "y # xs"] by simp_all
  with 1 show ?case by (auto simp: successively_Cons)
qed simp_all

lemma startsWith_single: "startsWith r [c] \<longleftrightarrow> r \<noteq> [] \<and> hd r = c"
  by (cases r) (auto simp: startsWith_def)

lemma endsWith_single: "endsWith r [c] \<longleftrightarrow> r \<noteq> [] \<and> last r = c"
  by (cases r rule: rev_cases) (auto simp: endsWith_def)

lemma trim_hyphen_ends:
  assumes "successively (\<lambda>a b. \<not> (a = CHR ''-'' \<and> b = CHR ''-'')) xs"
  shows "\<not> startsWith (trim_hyphen xs) ''-'' \<and> \<not> endsWith (trim_hyphen xs) ''-''"
proof -
  let ?P = "\<lambda>a b. \<not> (a = CHR ''-'' \<and> b = CHR ''-'')"
  define s1 where "s1 = (case xs of [] \<Rightarrow> [] | c # cs \<Rightarrow> if c = CHR ''-'' then cs else c # cs)"
  have succ1: "successively ?P s1"
    using assms by (auto simp: s1_def successively_Cons split: list.splits)
  have hd1: "s1 = [] \<or> hd s1 \<noteq> CHR ''-''"
    using assms by (auto simp: s1_def successively_Cons split: list.splits)
  have res: "trim_hyphen xs = (if s1 \<noteq> [] \<and> last s1 = CHR ''-'' then butlast s1 else s1)"
    by (simp add: trim_hyphen_def s1_def)
  show ?thesis
  proof (cases "s1 \<noteq> [] \<and> last s1 = CHR ''-''")
    case False
    with res hd1 show ?thesis by (auto simp: startsWith_single endsWith_single)
  next
    case True
    then obtain ys where ys: "s1 = ys @ [CHR ''-'']"
      by (cases s1 rule: rev_cases) auto
    have "successively ?P (ys @ [CHR ''-''])"
      using succ1 unfolding ys .
    then have last2: "ys = [] \<or> last ys \<noteq> CHR ''-''"
      by (auto simp: successively_append_iff)
    have hd2: "ys = [] \<or> hd ys \<noteq> CHR ''-''"
      using hd1 unfolding ys by (cases ys) auto
    from True res have "trim_hyphen xs = ys" by (simp add: ys)
    with last2 hd2 show ?thesis by (auto simp: startsWith_single endsWith_single)
  qed
qed

section \<open>Slugs\<close>

text \<open>
  Claim C10. For every URL, \<open>createSlug\<close> returns a string of lower-case ASCII letters,
  digits and hyphens that neither starts nor ends with a hyphen; and when what is left
  of the URL after the base URL and the surrounding slashes are stripped is not empty
  but has no alphanumeric character, the slug is the empty string: \<open>index\<close> is the slug
  of the empty rest only.
\<close>

theorem createSlug_shape:
  "(\<forall>c\<in>set (createSlug u). slug_char c) \<and>
   \<not> startsWith (createSlug u) ''-'' \<and> \<not> endsWith (createSlug u) ''-'' \<and>
   (strip_base u \<noteq> [] \<and> (\<forall>c\<in>set (strip_base u). \<not> is_alnum c) \<longrightarrow> createSlug u = [])"
proof (cases "strip_base u = []")
  case True
  then have "createSlug u = ''index''" by (simp add: createSlug_def)
  moreover have "(\<forall>c\<in>set ''index''. slug_char c) \<and>
      \<not> startsWith ''index'' ''-'' \<and> \<not> endsWith ''index'' ''-''"
    by code_simp
  ultimately show ?thesis using True by simp
next
  case False
  let ?h = "hyphenate (toLowerCase (strip_base u))"
  have eq: "createSlug u = trim_hyphen (collapse_hyphens ?h)"
    using False by (simp add: createSlug_def)
  have "set ?h \<subseteq> {c. slug_char c}"
    by (auto simp: hyphenate_def slug_char_def)
  then have chars: "\<forall>c\<in>set (createSlug u). slug_char c"
    using set_trim_hyphen [of "collapse_hyphens ?h"] set_collapse [of ?h] eq by auto
  have ends: "\<not> startsWith (createSlug u) ''-'' \<and> \<not> endsWith (createSlug u) ''-''"
    using trim_hyphen_ends [OF successively_collapse, of ?h] eq by simp
  have empty: "createSlug u = []" if "\<forall>c\<in>set (strip_base u). \<not> is_alnum c"
  proof -
    obtain n where n: "length (strip_base u) = Suc n"
      using False by (cases "strip_base u") auto
    have "?h = replicate (Suc n) (CHR ''-'')"
      using hyphenate_not_alnum [OF that] n by simp
    then have "collapse_hyphens ?h = ''-''" by (simp only: collapse_replicate)
    then show ?thesis using eq by (simp add: trim_hyphen_def)
  qed
  from chars ends empty show ?thesis by blast
qed

theorem createSlug_shape_witness:
  "strip_base (baseUrl @ ''/_~/'') = ''_~'' \<and> createSlug (baseUrl @ ''/_~/'') = [] \<and>
   list_all slug_char (createSlug (baseUrl @ ''/_~/''))"
proof -
  let ?u = "baseUrl @ ''/_~/''"
  have s: "strip_base ?u = ''_~''" by code_simp
  have "\<forall>c\<in>set (strip_base ?u). \<not> is_alnum c" unfolding s by code_simp
  with s have "createSlug ?u = []" "\<forall>c\<in>set (createSlug ?u). slug_char c"
    using createSlug_shape [of ?u] by simp_all
  with s show ?thesis by (simp add: list_all_iff)
qed

lemma successively_trim_hyphen:
  assumes "successively P xs"
  shows "successively P (trim_hyphen xs)"
proof -
  define s1 where "s1 = (case xs of [] \<Rightarrow> [] | c # cs \<Rightarrow> if c = CHR ''-'' then cs else c # cs)"
  have succ1: "successively P s1"
    using assms by (auto simp: s1_def successively_Cons split: list.splits)
  have "successively P (butlast s1)"
    using succ1 by (cases s1 rule: rev_cases) (auto simp: successively_append_iff)
  with succ1 show ?thesis by (simp add: trim_hyphen_def s1_def [symmetric])
qed

lemma no_double_hyphen:
  "successively (\<lambda>a b. \<not> (a = CHR ''-'' \<and> b = CHR ''-'')) xs \<Longrightarrow> \<not> str_includes xs ''--''"
proof (induction xs)
  case Nil
  then show ?case by simp
next
  case (Cons x xs)
  then show ?case by (cases xs) (auto simp: successively_Cons)
qed

lemma hyphen_not_alnum: "\<not> slug_alnum (CHR ''-'')"
  by code_simp

lemma collapse_Cons_other: "x \<noteq> CHR ''-'' \<Longrightarrow> collapse_hyphens (x # ys) = x # collapse_hyphens ys"
  by (cases ys) simp_all

lemma collapse_append_word:
  "CHR ''-'' \<notin> set w \<Longrightarrow> collapse_hyphens (w @ ys) = w @ collapse_hyphens ys"
proof (induction w)
  case Nil
  then show ?case by simp
next
  case (Cons a w)
  then have "a \<noteq> CHR ''-''" by auto
  then have "collapse_hyphens (a # (w @ ys)) = a # collapse_hyphens (w @ ys)"
    by (rule collapse_Cons_other)
  with Cons show ?case by simp
qed

lemma trim_collapse_hyphen:
  "trim_hyphen (collapse_hyphens (CHR ''-'' # ys)) = trim_hyphen (collapse_hyphens ys)"
proof (cases ys)
  case Nil
  then show ?thesis by (simp add: trim_hyphen_def)
next
  case (Cons y zs)
  then show ?thesis
    by (cases "y = CHR ''-''") (simp_all add: collapse_Cons_other trim_hyphen_def)
qed

lemma trim_hyphen_word:
  assumes "w \<noteq> []" "CHR ''-'' \<notin> set w"
    and "ys = [] \<or> (\<exists>zs. ys = CHR ''-'' # zs \<and> (zs = [] \<or> hd zs \<noteq> CHR ''-''))"
  shows "trim_hyphen (w @ ys) = (if trim_hyphen ys = [] then w else w @ CHR ''-'' # trim_hyphen ys)"
proof -
  obtain a w' where w: "w = a # w'" using assms(1) by (cases w) auto
  have a: "a \<noteq> CHR ''-''" and lastw: "last (a # w') \<noteq> CHR ''-''"
    using assms(2) w last_in_set [of "a # w'"] by auto
  show ?thesis
  proof (cases ys)
    case Nil
    then show ?thesis using a lastw by (simp add: trim_hyphen_def w)
  next
    case (Cons y zs)
    then have y: "y = CHR ''-''" and zs: "zs = [] \<or> hd zs \<noteq> CHR ''-''"
      using assms(3) by auto
    show ?thesis
    proof (cases zs)
      case Nil
      then show ?thesis using a y Cons by (simp add: trim_hyphen_def w butlast_append)
    next
      case (Cons z zs')
      then have "z \<noteq> CHR ''-''" using zs by simp
      then show ?thesis
        using a y \<open>ys = y # zs\<close> Cons
        by (cases zs' rule: rev_cases) (auto simp: trim_hyphen_def w butlast_append Let_def)
    qed
  qed
qed


lemma hyphenate_other: "\<not> slug_alnum c \<Longrightarrow> hyphenate (c # cs) = CHR ''-'' # hyphenate cs"
  by (auto simp: hyphenate_def slug_char_def slug_alnum_def)

lemma hyphenate_word: "list_all slug_alnum w \<Longrightarrow> hyphenate (w @ r) = w @ hyphenate r"
  by (induction w) (auto simp: hyphenate_def slug_char_def slug_alnum_def)

lemma alnum_runs_nonempty: "w \<in> set (alnum_runs s) \<Longrightarrow> w \<noteq> []"
  by (induction s rule: alnum_runs.induct) (auto split: if_splits)

lemma join_hyphen_Cons:
  "join_hyphen (w # ws) = (if ws = [] then w else w @ CHR ''-'' # join_hyphen ws)"
  by (cases ws) simp_all

lemma join_hyphen_Nil_iff:
  "\<forall>w\<in>set ws. w \<noteq> [] \<Longrightarrow> join_hyphen ws = [] \<longleftrightarrow> ws = []"
  by (cases ws) (auto simp: join_hyphen_Cons)

lemma collapsed_tail_shape:
  "collapse_hyphens (CHR ''-'' # xs) = CHR ''-'' # tl (collapse_hyphens (CHR ''-'' # xs)) \<and>
   (tl (collapse_hyphens (CHR ''-'' # xs)) = [] \<or> hd (tl (collapse_hyphens (CHR ''-'' # xs))) \<noteq> CHR ''-'')"
proof -
  let ?ys = "collapse_hyphens (CHR ''-'' # xs)"
  have ne: "?ys \<noteq> []" and hd: "hd ?ys = CHR ''-''"
    using collapse_Nil_iff [of "CHR ''-'' # xs"] hd_collapse [of "CHR ''-'' # xs"] by simp_all
  then have shape: "?ys = CHR ''-'' # tl ?ys" by (cases ?ys) simp_all
  have "successively (\<lambda>a b. \<not> (a = CHR ''-'' \<and> b = CHR ''-'')) (CHR ''-'' # tl ?ys)"
    using successively_collapse [of "CHR ''-'' # xs"] shape by simp
  then have "tl ?ys = [] \<or> hd (tl ?ys) \<noteq> CHR ''-''"
    by (auto simp: successively_Cons)
  with shape show ?thesis by blast
qed

text \<open>The three replacements of \<open>createSlug\<close> give the runs joined by hyphens.\<close>

lemma slug_normal_form:
  "trim_hyphen (collapse_hyphens (hyphenate s)) = join_hyphen (alnum_runs s)"
proof (induction s rule: alnum_runs.induct)
  case 1
  show ?case by (simp add: hyphenate_def trim_hyphen_def)
next
  case (2 c cs)
  show ?case
  proof (cases "slug_alnum c")
    case False
    then show ?thesis
      using 2(2) by (simp add: hyphenate_other trim_collapse_hyphen)
  next
    case True
    let ?w = "takeWhile slug_alnum (c # cs)"
    let ?r = "dropWhile slug_alnum cs"
    let ?ys = "collapse_hyphens (hyphenate ?r)"
    have split: "c # cs = ?w @ ?r"
      using True takeWhile_dropWhile_id [of slug_alnum "c # cs"] by simp
    have word: "list_all slug_alnum ?w" "?w \<noteq> []"
      using True by (auto simp: list_all_iff dest: set_takeWhileD)
    have nohyph: "CHR ''-'' \<notin> set ?w"
      using word(1) hyphen_not_alnum by (auto simp: list_all_iff)
    have "hyphenate (c # cs) = hyphenate (?w @ ?r)"
      by (simp only: split [symmetric])
    also have "\<dots> = ?w @ hyphenate ?r"
      by (rule hyphenate_word [OF word(1)])
    finally have norm: "collapse_hyphens (hyphenate (c # cs)) = ?w @ ?ys"
      using collapse_append_word [OF nohyph, of "hyphenate ?r"] by (simp only:)
    have shape: "?ys = [] \<or> (\<exists>zs. ?ys = CHR ''-'' # zs \<and> (zs = [] \<or> hd zs \<noteq> CHR ''-''))"
    proof (cases ?r)
      case Nil
      show ?thesis unfolding Nil by (simp add: hyphenate_def)
    next
      case (Cons x r')
      have "\<not> slug_alnum (hd ?r)"
        by (rule hd_dropWhile) (simp add: Cons)
      then have "\<not> slug_alnum x" unfolding Cons by simp
      then have h: "hyphenate (x # r') = CHR ''-'' # hyphenate r'"
        by (rule hyphenate_other)
      show ?thesis
        unfolding Cons h using collapsed_tail_shape [of "hyphenate r'"] by blast
    qed
    have ih: "trim_hyphen ?ys = join_hyphen (alnum_runs ?r)"
      using 2(1) [OF True] .
    have empty: "join_hyphen (alnum_runs ?r) = [] \<longleftrightarrow> alnum_runs ?r = []"
      by (rule join_hyphen_Nil_iff) (auto dest: alnum_runs_nonempty)
    have "trim_hyphen (collapse_hyphens (hyphenate (c # cs))) =
        (if trim_hyphen ?ys = [] then ?w else ?w @ CHR ''-'' # trim_hyphen ?ys)"
      unfolding norm by (rule trim_hyphen_word [OF word(2) nohyph shape])
    also have "\<dots> = join_hyphen (?w # alnum_runs ?r)"
      unfolding ih join_hyphen_Cons using empty by simp
    also have "\<dots> = join_hyphen (alnum_runs (c # cs))"
      using True by simp
    finally show ?thesis .
  qed
qed


lemma replace_first_prefix: "replace_first b [] (b @ p) = p"
proof (cases "b @ p")
  case Nil
  then show ?thesis by simp
next
  case (Cons x xs)
  have pre: "prefix b (x # xs)"
    using Cons by (metis prefixI)
  have "drop (length b) (x # xs) = p"
    using Cons by (metis append_eq_conv_conj)
  with pre show ?thesis unfolding Cons by simp
qed

lemma strip_base_of_base: "strip_base (baseUrl @ p) = strip_slashes p"
  by (simp only: strip_base_def replace_first_prefix)



lemma rstrip_parts: "xs = rev (dropWhile P (rev xs)) @ rev (takeWhile P (rev xs))"
proof -
  have "rev (rev (dropWhile P (rev xs)) @ rev (takeWhile P (rev xs))) = rev xs" by simp
  then have "rev (dropWhile P (rev xs)) @ rev (takeWhile P (rev xs)) = xs"
    unfolding rev_is_rev_conv .
  then show ?thesis by (rule sym)
qed

lemma strip_slashes_parts:
  "\<exists>a b. p = a @ strip_slashes p @ b \<and> list_all (\<lambda>c. c = CHR ''/'') a \<and>
     list_all (\<lambda>c. c = CHR ''/'') b"
proof -
  let ?sl = "\<lambda>c. c = CHR ''/''"
  let ?q = "dropWhile ?sl p"
  let ?a = "takeWhile ?sl p"
  let ?b = "rev (takeWhile ?sl (rev ?q))"
  have "?q = strip_slashes p @ ?b"
    unfolding strip_slashes_def by (rule rstrip_parts)
  then have "?a @ ?q = ?a @ strip_slashes p @ ?b" by (rule arg_cong)
  then have "p = ?a @ strip_slashes p @ ?b" unfolding takeWhile_dropWhile_id .
  moreover have "list_all ?sl ?a" "list_all ?sl ?b"
    by (auto simp: list_all_iff dest: set_takeWhileD)
  ultimately show ?thesis by blast
qed

lemma strip_slashes_ends:
  "\<not> startsWith (strip_slashes p) ''/'' \<and> \<not> endsWith (strip_slashes p) ''/''"
proof (cases "strip_slashes p = []")
  case True
  then show ?thesis by (simp add: startsWith_single endsWith_single)
next
  case False
  define q where "q = dropWhile (\<lambda>c. c = CHR ''/'') p"
  define t where "t = dropWhile (\<lambda>c. c = CHR ''/'') (rev q)"
  define b where "b = rev (takeWhile (\<lambda>c. c = CHR ''/'') (rev q))"
  have st: "strip_slashes p = rev t" by (simp add: strip_slashes_def q_def t_def)
  have t: "t \<noteq> []" using False unfolding st by simp
  have "hd t \<noteq> CHR ''/''"
    using hd_dropWhile [of "\<lambda>c. c = CHR ''/''" "rev q"] t unfolding t_def by blast
  then have last: "last (rev t) \<noteq> CHR ''/''" using t by (simp add: last_rev)
  have qb: "q = rev t @ b" unfolding t_def b_def by (rule rstrip_parts)
  have hdq: "hd q = hd (rev t)"
    using t by (subst qb) simp
  have "q \<noteq> []" using t by (subst qb) simp
  then have "hd q \<noteq> CHR ''/''"
    using hd_dropWhile [of "\<lambda>c. c = CHR ''/''" p] unfolding q_def by blast
  then have hd: "hd (rev t) \<noteq> CHR ''/''" unfolding hdq .
  from hd last show ?thesis unfolding st by (simp add: startsWith_single endsWith_single)
qed

text \<open>
  Claim C5 as the spec states it, at the URLs of its examples: the base URL that
  \<open>createSlug\<close> removes is the constant \<open>https://obraabc.org\<close>, so the scheme and the host
  of any other site stay in the slug. The slug of \<open>https://site/\<close> is \<open>https-site\<close>, not
  \<open>index\<close>, and the slug of \<open>https://site/Sobre-N.s/\<close>, with o acute for the dot, is
  \<open>https-site-sobre-n-s\<close>.
\<close>

theorem createSlug_literal_site:
  "createSlug ''https://site/'' = ''https-site'' \<and> createSlug ''https://site/'' \<noteq> ''index'' \<and>
   createSlug (''https://site/Sobre-N'' @ [CHR 0xF3] @ ''s/'') = ''https-site-sobre-n-s''"
  by code_simp

text \<open>
  Claim C5, as the code has it. \<open>createSlug\<close> is a function of the URL alone. The base URL
  is \<open>https://obraabc.org\<close>: the slug of the base URL followed by a slash is \<open>index\<close>, and
  the slug of \<open>https://obraabc.org/Sobre-N.s/\<close>, with o acute for the dot, is \<open>sobre-n-s\<close>.
  For every URL the slug is \<open>index\<close> when nothing is left after the base URL and the
  slashes at both ends are removed, and otherwise the maximal runs of characters of
  \<open>[a-z0-9]\<close> of the lower-cased rest, joined by single hyphens. What is left of the base
  URL followed by \<open>p\<close> is \<open>p\<close> without the slashes at its two ends, and only slashes are
  removed there. No slug has two hyphens in a row, and none begins or ends with a hyphen.
\<close>

theorem createSlug_runs_joined:
  "createSlug (baseUrl @ ''/'') = ''index'' \<and>
   createSlug (baseUrl @ ''/Sobre-N'' @ [CHR 0xF3] @ ''s/'') = ''sobre-n-s'' \<and>
   createSlug u = (if strip_base u = [] then ''index''
                   else join_hyphen (alnum_runs (toLowerCase (strip_base u)))) \<and>
   strip_base (baseUrl @ p) = strip_slashes p \<and>
   (\<exists>a b. p = a @ strip_slashes p @ b \<and> list_all (\<lambda>c. c = CHR ''/'') a \<and>
      list_all (\<lambda>c. c = CHR ''/'') b) \<and>
   \<not> startsWith (strip_slashes p) ''/'' \<and> \<not> endsWith (strip_slashes p) ''/'' \<and>
   \<not> str_includes (createSlug u) ''--'' \<and>
   \<not> startsWith (createSlug u) ''-'' \<and> \<not> endsWith (createSlug u) ''-''"
proof -
  have a: "createSlug (baseUrl @ ''/'') = ''index''" by code_simp
  have b: "createSlug (baseUrl @ ''/Sobre-N'' @ [CHR 0xF3] @ ''s/'') = ''sobre-n-s''" by code_simp
  have c: "createSlug u = (if strip_base u = [] then ''index''
                   else join_hyphen (alnum_runs (toLowerCase (strip_base u))))"
    by (simp add: createSlug_def slug_normal_form)
  have raw: "createSlug u = (if strip_base u = [] then ''index''
                   else trim_hyphen (collapse_hyphens (hyphenate (toLowerCase (strip_base u)))))"
    by (simp add: createSlug_def)
  have idx: "\<not> str_includes ''index'' ''--'' \<and> \<not> startsWith ''index'' ''-'' \<and>
      \<not> endsWith ''index'' ''-''"
    by code_simp
  have "\<not> str_includes (trim_hyphen (collapse_hyphens xs)) ''--''" for xs
    by (intro no_double_hyphen successively_trim_hyphen successively_collapse)
  with idx have d: "\<not> str_includes (createSlug u) ''--''" by (simp add: raw)
  have "\<not> startsWith (trim_hyphen (collapse_hyphens xs)) ''-'' \<and>
        \<not> endsWith (trim_hyphen (collapse_hyphens xs)) ''-''" for xs
    by (rule trim_hyphen_ends [OF successively_collapse])
  with idx have e: "\<not> startsWith (createSlug u) ''-'' \<and> \<not> endsWith (createSlug u) ''-''"
    by (simp add: raw)
  from a b c d e strip_base_of_base [of p] strip_slashes_parts [of p] strip_slashes_ends [of p]
  show ?thesis by blast
qed

theorem createSlug_runs_joined_witness:
  "strip_base (baseUrl @ ''/Quem--Somos_2024/'') = ''Quem--Somos_2024'' \<and>
   alnum_runs (toLowerCase ''Quem--Somos_2024'') = [''quem'', ''somos'', ''2024''] \<and>
   createSlug (baseUrl @ ''/Quem--Somos_2024/'') = ''quem-somos-2024'' \<and>
   createSlug (baseUrl @ ''/(Contactos)/'') = ''contactos''"
proof -
  have s1: "strip_base (baseUrl @ ''/Quem--Somos_2024/'') = ''Quem--Somos_2024''" by code_simp
  have r1: "alnum_runs (toLowerCase ''Quem--Somos_2024'') = [''quem'', ''somos'', ''2024'']"
    by code_simp
  have s2: "strip_base (baseUrl @ ''/(Contactos)/'') = ''(Contactos)''" by code_simp
  have r2: "alnum_runs (toLowerCase ''(Contactos)'') = [''contactos'']" by code_simp
  have "createSlug (baseUrl @ ''/Quem--Somos_2024/'') = ''quem-somos-2024''"
    using createSlug_runs_joined [of "baseUrl @ ''/Quem--Somos_2024/''"] s1 r1 by simp
  moreover have "createSlug (baseUrl @ ''/(Contactos)/'') = ''contactos''"
    using createSlug_runs_joined [of "baseUrl @ ''/(Contactos)/''"] s2 r2 by simp
  ultimately show ?thesis using s1 r1 by blast
qed

section \<open>Titles\<close>

text \<open>
  Claim C6. The title cleanup is to strip only a trailing \<open>| site-name\<close> or
  \<open>- tagline\<close> suffix and to keep the text before it. The code cuts at the first
  hyphen wherever it stands: of the title \<open>Guarda-chuva | Obra ABC\<close>, whose text before
  the site name is \<open>Guarda-chuva\<close>, it keeps \<open>Guarda\<close>.
\<close>

theorem cleanTitle_hyphenated_word: "cleanTitle ''Guarda-chuva | Obra ABC'' = ''Guarda''"
  by code_simp

section \<open>Categories and exclusion\<close>

lemma str_includes_map: "str_includes s p \<Longrightarrow> str_includes (map f s) (map f p)"
proof (induction s)
  case Nil
  then show ?case by simp
next
  case (Cons c cs)
  then show ?case using map_mono_prefix [of p "c # cs" f] by auto
qed

lemma str_includes_toLowerCase:
  "str_includes s p \<Longrightarrow> str_includes (toLowerCase s) (toLowerCase p)"
  unfolding toLowerCase_def by (rule str_includes_map)

lemma endsWith_toLowerCase: "endsWith s p \<Longrightarrow> endsWith (toLowerCase s) (toLowerCase p)"
  unfolding toLowerCase_def endsWith_def by (simp add: rev_map map_mono_prefix)

lemma first_matching_rule_split:
  assumes "rule_matches p rule" "\<forall>r\<in>set before. \<not> rule_matches p r"
  shows "first_matching_rule p (before @ rule # after) = snd (snd rule)"
  using assms by (induction before) simp_all

lemma first_matching_rule_none:
  "\<forall>r\<in>set rules. \<not> rule_matches p r \<Longrightarrow> first_matching_rule p rules = ''page''"
  by (induction rules) simp_all

lemma determineContentType_rules:
  "determineContentType p = first_matching_rule p categoryRules"
  by (simp add: determineContentType_def categoryRules_def rule_matches_def Let_def)

text \<open>
  Claim C7. The category is decided by ordered keyword sets, tested on the lower-cased
  URL and the lower-cased title, and the first rule that matches decides:
  \<open>determineContentType\<close> is the first matching rule of the table \<open>categoryRules\<close>
  (article, service, about, contact, resource, in this order) and \<open>page\<close> when none
  matches. So a URL that contains \<open>/blog/\<close> is an \<open>article\<close> whatever else it contains
  (\<open>/contato/\<close> included), a rule decides whenever no rule before it matches, whatever
  the rules after it do, and every page gets exactly one of the six categories.
\<close>

theorem determineContentType_first_rule_wins:
  "determineContentType p = first_matching_rule p categoryRules \<and>
   (str_includes (url p) ''/blog/'' \<longrightarrow> determineContentType p = ''article'') \<and>
   (\<forall>before rule after.
      categoryRules = before @ rule # after \<and> rule_matches p rule \<and>
      (\<forall>r\<in>set before. \<not> rule_matches p r) \<longrightarrow> determineContentType p = snd (snd rule)) \<and>
   ((\<forall>r\<in>set categoryRules. \<not> rule_matches p r) \<longrightarrow> determineContentType p = ''page'') \<and>
   determineContentType p \<in> set [''article'', ''service'', ''about'', ''contact'', ''resource'', ''page'']"
proof -
  have low: "toLowerCase ''/blog/'' = ''/blog/''" by code_simp
  have blog: "determineContentType p = ''article''" if "str_includes (url p) ''/blog/''"
    using str_includes_toLowerCase [OF that] unfolding low
    by (simp add: determineContentType_def)
  have split: "determineContentType p = snd (snd rule)"
    if "categoryRules = before @ rule # after" "rule_matches p rule"
      "\<forall>r\<in>set before. \<not> rule_matches p r" for before rule after
    using first_matching_rule_split [OF that(2,3), of after] that(1)
    by (simp add: determineContentType_rules)
  have none: "determineContentType p = ''page''" if "\<forall>r\<in>set categoryRules. \<not> rule_matches p r"
    using first_matching_rule_none [OF that] by (simp add: determineContentType_rules)
  have one: "determineContentType p \<in> set [''article'', ''service'', ''about'', ''contact'', ''resource'', ''page'']"
    by (simp add: determineContentType_def Let_def)
  from determineContentType_rules blog split none one show ?thesis by blast
qed

theorem determineContentType_first_rule_wins_witness:
  "str_includes (url blog_contact_page) ''/blog/'' \<and>
   str_includes (url blog_contact_page) ''/contato/'' \<and>
   determineContentType blog_contact_page = ''article'' \<and>
   determineContentType service_title_page = ''service'' \<and>
   rule_matches about_contact_page (categoryRules ! 3) \<and>
   determineContentType about_contact_page = ''about'' \<and>
   rule_matches contact_resource_page (categoryRules ! 4) \<and>
   determineContentType contact_resource_page = ''contact'' \<and>
   determineContentType resource_page = ''resource'' \<and>
   determineContentType home_page = ''page''"
proof -
  have a: "str_includes (url blog_contact_page) ''/blog/''" by code_simp
  have b: "str_includes (url blog_contact_page) ''/contato/''" by code_simp
  from a have c: "determineContentType blog_contact_page = ''article''"
    using determineContentType_first_rule_wins [of blog_contact_page] by blast
  have d: "first_matching_rule service_title_page categoryRules = ''service''" by code_simp
  have e: "rule_matches about_contact_page (categoryRules ! 3)" by code_simp
  have f: "first_matching_rule about_contact_page categoryRules = ''about''" by code_simp
  have g: "rule_matches contact_resource_page (categoryRules ! 4)" by code_simp
  have h: "first_matching_rule contact_resource_page categoryRules = ''contact''" by code_simp
  have i: "first_matching_rule resource_page categoryRules = ''resource''" by code_simp
  have j: "\<forall>r\<in>set categoryRules. \<not> rule_matches home_page r" by code_simp
  from j have k: "determineContentType home_page = ''page''"
    using determineContentType_first_rule_wins [of home_page] by blast
  from d f h i have "determineContentType service_title_page = ''service''"
    "determineContentType about_contact_page = ''about''"
    "determineContentType contact_resource_page = ''contact''"
    "determineContentType resource_page = ''resource''"
    using determineContentType_first_rule_wins [of service_title_page]
      determineContentType_first_rule_wins [of about_contact_page]
      determineContentType_first_rule_wins [of contact_resource_page]
      determineContentType_first_rule_wins [of resource_page]
    by simp_all
  with a b c e g k show ?thesis by blast
qed

text \<open>
  Claim C8. A page whose URL ends in \<open>.pdf\<close> is excluded whatever its title is, and a
  page whose title matches \<open>/^\d+x\d+$/\<close> is excluded whatever its URL and its content
  are (so also when the URL has no asset extension and the content is minimal).
\<close>

theorem isValidContentPage_excludes:
  "(endsWith (url p) ''.pdf'' \<longrightarrow> \<not> isValidContentPage p) \<and>
   (dimensions_pattern (title_or_empty p) \<longrightarrow> \<not> isValidContentPage p)"
proof -
  have low: "toLowerCase ''.pdf'' = ''.pdf''" by code_simp
  have "\<not> isValidContentPage p" if "endsWith (url p) ''.pdf''"
  proof -
    have "endsWith (toLowerCase (url p)) ''.pdf''"
      using endsWith_toLowerCase [OF that] unfolding low .
    moreover have "''.pdf'' \<in> set assetExtensions" by (simp add: assetExtensions_def)
    ultimately have "list_ex (\<lambda>ext. endsWith (toLowerCase (url p)) ext) assetExtensions"
      unfolding list_ex_iff by blast
    then show ?thesis by (simp add: isValidContentPage_def)
  qed
  moreover have "\<not> isValidContentPage p" if "dimensions_pattern (title_or_empty p)"
  proof -
    have "list_ex (\<lambda>pattern. pattern (toLowerCase (title_or_empty p)) \<or> pattern (title_or_empty p))
            assetTitlePatterns"
      using that by (simp add: assetTitlePatterns_def)
    then show ?thesis by (simp add: isValidContentPage_def Let_def)
  qed
  ultimately show ?thesis by blast
qed

theorem isValidContentPage_excludes_witness:
  "endsWith (url pdf_page) ''.pdf'' \<and> \<not> isValidContentPage pdf_page \<and>
   dimensions_pattern (title_or_empty dimensions_page) \<and>
   \<not> list_ex (\<lambda>ext. endsWith (toLowerCase (url dimensions_page)) ext) assetExtensions \<and>
   \<not> isValidContentPage dimensions_page"
proof -
  have a: "endsWith (url pdf_page) ''.pdf''" by code_simp
  have b: "dimensions_pattern (title_or_empty dimensions_page)" by code_simp
  have c: "\<not> list_ex (\<lambda>ext. endsWith (toLowerCase (url dimensions_page)) ext) assetExtensions"
    by code_simp
  from a have "\<not> isValidContentPage pdf_page"
    using isValidContentPage_excludes [of pdf_page] by blast
  moreover from b have "\<not> isValidContentPage dimensions_page"
    using isValidContentPage_excludes [of dimensions_page] by blast
  ultimately show ?thesis using a b c by blast
qed

section \<open>Errors of single pages\<close>

lemma tryProcessPage_originalUrl:
  "tryProcessPage env p = Inr (entry, text) \<Longrightarrow> originalUrl entry = url p"
  by (auto simp: tryProcessPage_def Let_def split: option.splits)

lemma processPage_processedPages:
  "map originalUrl (processedPages (processPage env s p)) =
     map originalUrl (processedPages s) @ (if page_fails env p then [] else [url p])"
  by (auto simp: processPage_def page_fails_def split: sum.splits dest: tryProcessPage_originalUrl)

lemma processPage_console_error:
  "map fst (console_error (processPage env s p)) =
     map fst (console_error s) @ (if page_fails env p then [url p] else [])"
  by (auto simp: processPage_def page_fails_def split: sum.splits)

lemma foldl_processPage_processedPages:
  "map originalUrl (processedPages (foldl (processPage env) s ps)) =
     map originalUrl (processedPages s) @ map url (filter (\<lambda>p. \<not> page_fails env p) ps)"
  by (induction ps arbitrary: s) (simp_all add: processPage_processedPages)

lemma foldl_processPage_console_error:
  "map fst (console_error (foldl (processPage env) s ps)) =
     map fst (console_error s) @ map url (filter (\<lambda>p. page_fails env p) ps)"
  by (induction ps arbitrary: s) (simp_all add: processPage_console_error)

lemma crawlPage_errors:
  "errors (fst (crawlPage w s u)) =
     (if u \<in> set (visitedUrls s) then errors s
      else errors s @ (case caught (visit w u) of None \<Rightarrow> [] | Some e \<Rightarrow> [(u, e)]))"
  by (simp add: crawlPage_def caught_def add_links_def Let_def split: outcome.splits)

text \<open>
  Claim C3, as the code has it. In the content processor an exception in the
  processing of one page is caught, written to \<open>console.error\<close> and the page is left
  out; the pages after it are processed all the same: the processed pages are
  exactly the content pages that do not fail, the logged URLs exactly those that do,
  both in the order of the input. In the crawler an exception raised inside the
  \<open>try\<close> block of \<open>crawlPage\<close> is appended to \<open>errors\<close>, the list of the crawl summary.
\<close>

theorem page_errors_logged_and_skipped:
  "map originalUrl (processedPages (processAllContent env pages)) =
     map url (filter (\<lambda>p. isValidContentPage p \<and> \<not> page_fails env p) pages) \<and>
   map fst (console_error (processAllContent env pages)) =
     map url (filter (\<lambda>p. isValidContentPage p \<and> page_fails env p) pages) \<and>
   errors (fst (crawlPage w s u)) =
     (if u \<in> set (visitedUrls s) then errors s
      else errors s @ (case caught (visit w u) of None \<Rightarrow> [] | Some e \<Rightarrow> [(u, e)]))"
proof -
  have a: "map originalUrl (processedPages (processAllContent env pages)) =
     map url (filter (\<lambda>p. isValidContentPage p \<and> \<not> page_fails env p) pages)"
    unfolding processAllContent_def foldl_processPage_processedPages
    by (simp add: new_processor_def conj_commute)
  have b: "map fst (console_error (processAllContent env pages)) =
     map url (filter (\<lambda>p. isValidContentPage p \<and> page_fails env p) pages)"
    unfolding processAllContent_def foldl_processPage_console_error
    by (simp add: new_processor_def conj_commute)
  from a b crawlPage_errors [of w s u] show ?thesis by blast
qed

text \<open>
  The claim as the spec states it asks for every error to be in an output error list
  or in the fatal abort message. The processor has no error list: when the file of
  the page \<open>/sobre/\<close> cannot be written, the run goes on, the error is on the console
  only, and what the run leaves behind (the content files and the redirects) is what
  a run without that page leaves behind.
\<close>

theorem page_error_in_no_output:
  "console_error (processAllContent locked_file_env [about_page, home_page]) =
     [(url about_page, FsError ''EACCES'')] \<and>
   processor_output (processAllContent locked_file_env [about_page, home_page]) =
     processor_output (processAllContent locked_file_env [home_page])"
proof -
  have v1: "isValidContentPage about_page" by code_simp
  have v2: "isValidContentPage home_page" by code_simp
  have t1: "tryProcessPage locked_file_env about_page = Inl (FsError ''EACCES'')" by code_simp
  have t2: "tryProcessPage locked_file_env home_page =
      Inr (\<lparr>slug = ''index'', pageType = ''page'', originalUrl = ''https://obraabc.org/'',
            cleanedTitle = ''Obra ABC'', outputPath = ''src/content/pages/index.md''\<rparr>,
           ''<p>Bem-vindo</p>'')"
    by code_simp
  show ?thesis
    by (simp add: processAllContent_def v1 v2 processPage_def t1 t2 new_processor_def
        processor_output_def generateRedirectsMapping_def)
qed

text \<open>
  A call of \<open>crawlPage\<close> that is rejected inside a batch (\<open>context.newPage()\<close> throws,
  outside the \<open>try\<close> block) marks its URL visited and leaves neither a page record
  nor an entry in \<open>errors\<close>: \<open>Promise.allSettled\<close> drops the rejection.
\<close>

lemma rejected_call_leaves_no_record:
  assumes "u \<notin> set (visitedUrls s)" "visit w u = NewPageFails e"
  shows "errors (allSettled w s [u]) = errors s \<and> pagesData (allSettled w s [u]) = pagesData s \<and>
         u \<in> set (visitedUrls (allSettled w s [u]))"
  using assms by (simp add: crawlPage_def set_add_def)

section \<open>Bulk image fetcher: file names and skipping\<close>



















section \<open>Media transcoder: what a run leaves on the disk\<close>

lemma toFile_other: "q \<noteq> target \<Longrightarrow> snd (toFile env now d inputPath cw target) q = d q"
  by (simp add: toFile_def split: option.splits body.splits encoding.splits)

lemma generate_files:
  "files (generate env now inputPath cw st outDir name) q =
     (if q = join [outDir, name] then variant_after env now inputPath cw (files st) q
      else files st q)"
proof (cases "toFile env now (files st) inputPath cw (join [outDir, name])")
  case (Pair e d)
  have "q \<noteq> join [outDir, name] \<Longrightarrow> d q = files st q"
    using toFile_other [of q "join [outDir, name]" env now "files st" inputPath cw] Pair by simp
  then show ?thesis
    using Pair by (auto simp: generate_def variant_after_def Let_def split: option.splits)
qed

lemma variant_after_cong:
  assumes "d1 inputPath = d2 inputPath" "d1 target = d2 target"
  shows "variant_after env now inputPath cw d1 target = variant_after env now inputPath cw d2 target"
  using assms
  by (simp add: variant_after_def shouldSkipOptimization_def getFileModTime_def toFile_def
      split: option.splits body.splits encoding.splits)

lemma optimize_as_steps:
  "foldl (optimizeSize env now inputPath outDir filename) st CONFIG_sizes =
   foldl (\<lambda>st (name, cw). generate env now inputPath cw st outDir name) st (variantSteps filename)"
  by (simp add: CONFIG_sizes_def variantSteps_def optimizeSize_def Let_def)

lemma variantPaths_steps:
  "variantPaths outDir filename = map (\<lambda>(name, cw). join [outDir, name]) (variantSteps filename)"
  by (simp add: variantPaths_def variantSteps_def CONFIG_sizes_def)

lemma steps_other:
  "q \<notin> set (map (\<lambda>(name, cw). join [outDir, name]) steps) \<Longrightarrow>
   files (foldl (\<lambda>st (name, cw). generate env now inputPath cw st outDir name) st steps) q = files st q"
  by (induction steps arbitrary: st) (auto simp: generate_files)

lemma steps_target:
  assumes "distinct (map (\<lambda>(name, cw). join [outDir, name]) steps)"
    and "inputPath \<notin> set (map (\<lambda>(name, cw). join [outDir, name]) steps)"
    and "(name, cw) \<in> set steps"
  shows "files (foldl (\<lambda>st (name, cw). generate env now inputPath cw st outDir name) st steps)
           (join [outDir, name]) =
         variant_after env now inputPath cw (files st) (join [outDir, name])"
  using assms
proof (induction steps arbitrary: st)
  case Nil
  then show ?case by simp
next
  case (Cons step steps)
  obtain n0 c0 where step: "step = (n0, c0)" by (cases step)
  let ?st1 = "generate env now inputPath c0 st outDir n0"
  show ?case
  proof (cases "(name, cw) = (n0, c0)")
    case True
    have "join [outDir, name] \<notin> set (map (\<lambda>(name, cw). join [outDir, name]) steps)"
      using Cons.prems(1) True step by simp
    then have "files (foldl (\<lambda>st (name, cw). generate env now inputPath cw st outDir name) ?st1 steps)
                 (join [outDir, name]) = files ?st1 (join [outDir, name])"
      by (rule steps_other)
    then show ?thesis using True step by (simp add: generate_files)
  next
    case False
    then have mem: "(name, cw) \<in> set steps" using Cons.prems(3) step by auto
    then have "join [outDir, name] \<in> set (map (\<lambda>(name, cw). join [outDir, name]) steps)"
      by force
    then have ne: "join [outDir, name] \<noteq> join [outDir, n0]"
      using Cons.prems(1) step by auto
    have ni: "inputPath \<noteq> join [outDir, n0]"
      using Cons.prems(2) step by simp
    have "files (foldl (\<lambda>st (name, cw). generate env now inputPath cw st outDir name) ?st1 steps)
            (join [outDir, name]) =
          variant_after env now inputPath cw (files ?st1) (join [outDir, name])"
      using Cons.IH [OF _ _ mem] Cons.prems(1,2) step by simp
    also have "\<dots> = variant_after env now inputPath cw (files st) (join [outDir, name])"
      by (rule variant_after_cong) (simp_all add: generate_files ne ni)
    finally show ?thesis using step by simp
  qed
qed

lemma join_pair: "join [a, b] = a @ ''/'' @ b"
  by (simp add: join_def)

lemma distinct_variantPaths: "distinct (variantPaths outDir filename)"
  by (simp add: variantPaths_def CONFIG_sizes_def join_pair)

lemma length_variantPaths: "length (variantPaths outDir filename) = 8"
  by (simp add: variantPaths_def CONFIG_sizes_def)

lemma sharp_run:
  assumes "sharp_available env"
    and "optimizeWithSharp env now inputPath outDir filename st = Inr st'"
  shows "st' = foldl (\<lambda>st (name, cw). generate env now inputPath cw st outDir name) st
                 (variantSteps filename)"
  using assms by (simp add: optimizeWithSharp_def optimize_as_steps)

lemma sharp_run_other:
  assumes "sharp_available env"
    and "optimizeWithSharp env now inputPath outDir filename st = Inr st'"
    and "q \<notin> set (variantPaths outDir filename)"
  shows "files st' q = files st q"
  using steps_other [of q outDir "variantSteps filename" env now inputPath st] assms(3)
  unfolding sharp_run [OF assms(1,2)] variantPaths_steps by simp

lemma sharp_run_target:
  assumes "sharp_available env"
    and "optimizeWithSharp env now inputPath outDir filename st = Inr st'"
    and "inputPath \<notin> set (variantPaths outDir filename)"
    and "(name, cw) \<in> set (variantSteps filename)"
  shows "files st' (join [outDir, name]) =
         variant_after env now inputPath cw (files st) (join [outDir, name])"
  unfolding sharp_run [OF assms(1,2)]
  using steps_target [of outDir "variantSteps filename" inputPath name cw env now st]
    assms(3,4) distinct_variantPaths [of outDir filename]
  unfolding variantPaths_steps by simp

lemma resized_width_le: "resized_width cw w \<le> w"
  by (simp add: resized_width_def split: option.splits)

lemma variant_after_cases:
  assumes "d inputPath = Some f" "body f = Picture w"
  shows "variant_after env now inputPath cw d target =
     (if shouldSkipOptimization d inputPath target then d target
      else case encoder env target of
             Completes \<Rightarrow> Some \<lparr>mtime = now, body = Picture (resized_width cw w)\<rparr>
           | Refuses e \<Rightarrow> d target
           | Breaks e \<Rightarrow> Some \<lparr>mtime = now, body = Truncated\<rparr>)"
  using assms by (simp add: variant_after_def toFile_def split: encoding.splits)

lemma variantPaths_mem:
  "p \<in> set (variantPaths outDir filename) \<Longrightarrow>
   \<exists>name cw. (name, cw) \<in> set (variantSteps filename) \<and> p = join [outDir, name]"
  unfolding variantPaths_steps by auto

text \<open>
  Claim C9, as the code has it. For a readable source of width \<open>w\<close> the transcoder
  touches no path but its eight target paths (four size classes, two formats); every
  image it writes is at most \<open>w\<close> pixels wide (a 300-pixel source gives no 800- or
  1200-pixel file); and no size class is skipped for a small source: when no target
  is up to date and every encoder call completes, each of the eight files is written,
  with the width of its class or the width of the source, whichever is smaller.
\<close>

theorem no_upscale_eight_files:
  assumes "sharp_available env"
    and "files st inputPath = Some f" "body f = Picture w"
    and "inputPath \<notin> set (variantPaths outDir filename)"
    and "optimizeWithSharp env now inputPath outDir filename st = Inr st'"
  shows "length (variantPaths outDir filename) = 8 \<and>
         (\<forall>q. files st' q \<noteq> files st q \<longrightarrow> q \<in> set (variantPaths outDir filename)) \<and>
         (\<forall>q g w'. files st' q \<noteq> files st q \<and> files st' q = Some g \<and> body g = Picture w' \<longrightarrow> w' \<le> w) \<and>
         ((\<forall>p\<in>set (variantPaths outDir filename).
              encoder env p = Completes \<and> \<not> shouldSkipOptimization (files st) inputPath p) \<longrightarrow>
          (\<forall>(name, cw)\<in>set (variantSteps filename).
              files st' (join [outDir, name]) =
                Some \<lparr>mtime = now, body = Picture (resized_width cw w)\<rparr>))"
proof -
  note run = assms(1,5)
  have changed: "q \<in> set (variantPaths outDir filename)" if "files st' q \<noteq> files st q" for q
    using sharp_run_other [OF run, of q] that by blast
  have at: "files st' (join [outDir, name]) =
      (if shouldSkipOptimization (files st) inputPath (join [outDir, name])
       then files st (join [outDir, name])
       else case encoder env (join [outDir, name]) of
              Completes \<Rightarrow> Some \<lparr>mtime = now, body = Picture (resized_width cw w)\<rparr>
            | Refuses e \<Rightarrow> files st (join [outDir, name])
            | Breaks e \<Rightarrow> Some \<lparr>mtime = now, body = Truncated\<rparr>)"
    if "(name, cw) \<in> set (variantSteps filename)" for name cw
    using sharp_run_target [OF run assms(4) that]
      variant_after_cases [of "files st" inputPath f w env now cw "join [outDir, name]"] assms(2,3)
    by simp
  have width: "w' \<le> w"
    if chg: "files st' q \<noteq> files st q" and g: "files st' q = Some g" "body g = Picture w'"
    for q g w'
  proof -
    obtain name cw where m: "(name, cw) \<in> set (variantSteps filename)" "q = join [outDir, name]"
      using variantPaths_mem [OF changed [OF chg]] by blast
    show ?thesis
      using at [OF m(1)] chg g resized_width_le [of cw w] unfolding m(2)
      by (auto split: if_splits encoding.splits)
  qed
  have all: "files st' (join [outDir, name]) = Some \<lparr>mtime = now, body = Picture (resized_width cw w)\<rparr>"
    if ok: "\<forall>p\<in>set (variantPaths outDir filename).
          encoder env p = Completes \<and> \<not> shouldSkipOptimization (files st) inputPath p"
      and m: "(name, cw) \<in> set (variantSteps filename)" for name cw
  proof -
    have "join [outDir, name] \<in> set (variantPaths outDir filename)"
      unfolding variantPaths_steps using m by force
    with ok show ?thesis using at [OF m] by simp
  qed
  show ?thesis
    using length_variantPaths [of outDir filename] changed width all by blast
qed

theorem no_upscale_eight_files_witness:
  "files small_source ''src/a.png'' = Some \<lparr>mtime = 5, body = Picture 300\<rparr> \<and>
   files (projr (optimizeWithSharp always_completes 9 ''src/a.png'' ''out'' ''a.png'' small_source))
     ''out/a-lg.jpg'' = Some \<lparr>mtime = 9, body = Picture 300\<rparr>"
proof -
  let ?st' = "foldl (optimizeSize always_completes 9 ''src/a.png'' ''out'' ''a.png'') small_source CONFIG_sizes"
  have avail: "sharp_available always_completes" by (simp add: always_completes_def)
  have run: "optimizeWithSharp always_completes 9 ''src/a.png'' ''out'' ''a.png'' small_source = Inr ?st'"
    by (simp add: optimizeWithSharp_def avail)
  have src: "files small_source ''src/a.png'' = Some \<lparr>mtime = 5, body = Picture 300\<rparr>"
    by (simp add: small_source_def)
  have paths: "variantPaths ''out'' ''a.png'' =
      [''out/a-sm.webp'', ''out/a-sm.jpg'', ''out/a-md.webp'', ''out/a-md.jpg'',
       ''out/a-lg.webp'', ''out/a-lg.jpg'', ''out/a.webp'', ''out/a.jpg'']"
    by code_simp
  have notvar: "''src/a.png'' \<notin> set (variantPaths ''out'' ''a.png'')"
    unfolding paths by simp
  have fresh: "\<forall>p\<in>set (variantPaths ''out'' ''a.png'').
      encoder always_completes p = Completes \<and>
      \<not> shouldSkipOptimization (files small_source) ''src/a.png'' p"
    unfolding paths
    by (simp add: always_completes_def small_source_def shouldSkipOptimization_def getFileModTime_def)
  have step: "(''a-lg.jpg'', Some 1200) \<in> set (variantSteps ''a.png'')" by code_simp
  have "files ?st' (join [''out'', ''a-lg.jpg'']) =
      Some \<lparr>mtime = 9, body = Picture (resized_width (Some 1200) 300)\<rparr>"
    using no_upscale_eight_files [OF avail src _ notvar run] fresh step by fastforce
  then show ?thesis
    using src run by (simp add: join_pair resized_width_def)
qed

text \<open>
  The claim as the spec states it has fewer than eight variants for a source smaller
  than a size class. A 300-pixel source gets all eight files, the \<open>-md\<close> and \<open>-lg\<close>
  ones included, each 300 pixels wide.
\<close>

theorem small_source_gets_eight_files:
  "map (\<lambda>p. map_option body
          (files (projr (optimizeWithSharp always_completes 9 ''src/a.png'' ''out'' ''a.png'' small_source)) p))
     [''out/a-sm.webp'', ''out/a-sm.jpg'', ''out/a-md.webp'', ''out/a-md.jpg'',
      ''out/a-lg.webp'', ''out/a-lg.jpg'', ''out/a.webp'', ''out/a.jpg''] =
   [Some (Picture 300), Some (Picture 300), Some (Picture 300), Some (Picture 300),
    Some (Picture 300), Some (Picture 300), Some (Picture 300), Some (Picture 300)]"
  by code_simp

text \<open>
  Claim C4, as the code has it. The transcoder gives the encoder the final path of
  each variant (there is no temporary file and no rename), so after a run each
  target holds what its own block left there: the previous file when the target was
  up to date or the encoder threw before touching it, the new image when the encoder
  completed, and the truncated file when the write broke partway. A failure on one
  variant changes no other variant's file.
\<close>

theorem variant_failure_is_local:
  assumes "sharp_available env"
    and "files st inputPath = Some f" "body f = Picture w"
    and "inputPath \<notin> set (variantPaths outDir filename)"
    and "optimizeWithSharp env now inputPath outDir filename st = Inr st'"
    and "(name, cw) \<in> set (variantSteps filename)"
  shows "files st' (join [outDir, name]) =
     (if shouldSkipOptimization (files st) inputPath (join [outDir, name])
      then files st (join [outDir, name])
      else case encoder env (join [outDir, name]) of
             Completes \<Rightarrow> Some \<lparr>mtime = now, body = Picture (resized_width cw w)\<rparr>
           | Refuses e \<Rightarrow> files st (join [outDir, name])
           | Breaks e \<Rightarrow> Some \<lparr>mtime = now, body = Truncated\<rparr>)"
  using sharp_run_target [OF assms(1,5,4,6)]
    variant_after_cases [of "files st" inputPath f w env now cw "join [outDir, name]"] assms(2,3)
  by simp

theorem variant_failure_is_local_witness:
  "encoder breaks_on_sm_webp ''out/a-sm.webp'' = Breaks ''EIO'' \<and>
   files (projr (optimizeWithSharp breaks_on_sm_webp 9 ''src/a.png'' ''out'' ''a.png'' stale_output))
     ''out/a-md.webp'' = Some \<lparr>mtime = 9, body = Picture 800\<rparr>"
proof -
  let ?st' = "foldl (optimizeSize breaks_on_sm_webp 9 ''src/a.png'' ''out'' ''a.png'') stale_output CONFIG_sizes"
  have avail: "sharp_available breaks_on_sm_webp" by (simp add: breaks_on_sm_webp_def)
  have run: "optimizeWithSharp breaks_on_sm_webp 9 ''src/a.png'' ''out'' ''a.png'' stale_output = Inr ?st'"
    by (simp add: optimizeWithSharp_def avail)
  have src: "files stale_output ''src/a.png'' = Some \<lparr>mtime = 5, body = Picture 1600\<rparr>"
    by (simp add: stale_output_def)
  have notvar: "''src/a.png'' \<notin> set (variantPaths ''out'' ''a.png'')" by code_simp
  have step: "(''a-md.webp'', Some 800) \<in> set (variantSteps ''a.png'')" by code_simp
  have enc: "encoder breaks_on_sm_webp ''out/a-sm.webp'' = Breaks ''EIO''"
       "encoder breaks_on_sm_webp ''out/a-md.webp'' = Completes"
    by (simp_all add: breaks_on_sm_webp_def)
  have noskip: "\<not> shouldSkipOptimization (files stale_output) ''src/a.png'' ''out/a-md.webp''"
    by (simp add: stale_output_def shouldSkipOptimization_def getFileModTime_def)
  have "files ?st' (join [''out'', ''a-md.webp'']) =
      Some \<lparr>mtime = 9, body = Picture (resized_width (Some 800) 1600)\<rparr>"
    using variant_failure_is_local [OF avail src _ notvar run step] enc noskip
    by (simp add: join_pair)
  then show ?thesis
    using enc run by (simp add: join_pair resized_width_def)
qed

text \<open>
  The claim as the spec states it: a write that fails partway never leaves a truncated
  file in place of a previously good output. With a good but stale \<open>a-sm.webp\<close>, a
  write of that variant that breaks partway leaves the truncated file at that path.
\<close>

theorem broken_write_replaces_good_output:
  "files stale_output ''out/a-sm.webp'' = Some \<lparr>mtime = 3, body = Picture 400\<rparr> \<and>
   files (projr (optimizeWithSharp breaks_on_sm_webp 9 ''src/a.png'' ''out'' ''a.png'' stale_output))
     ''out/a-sm.webp'' = Some \<lparr>mtime = 9, body = Truncated\<rparr>"
  by code_simp

section \<open>Crawler: termination and single visits\<close>

lemma base_reachable: "base \<in> reachable w base"
  by (simp add: reachable_def)

lemma reachable_step:
  "u \<in> reachable w base \<Longrightarrow> v \<in> set (successors w base u) \<Longrightarrow> v \<in> reachable w base"
  unfolding reachable_def by (auto intro: rtrancl_into_rtrancl)

lemma reachable_least:
  assumes "base \<in> V" and "\<And>u v. u \<in> V \<Longrightarrow> v \<in> set (successors w base u) \<Longrightarrow> v \<in> V"
  shows "reachable w base \<subseteq> V"
proof
  fix v assume "v \<in> reachable w base"
  then have "(base, v) \<in> {(u, v). v \<in> set (successors w base u)}\<^sup>*"
    by (simp add: reachable_def)
  then show "v \<in> V"
    by (induction rule: rtrancl_induct) (use assms in auto)
qed

lemma set_fold_set_add: "set (fold (\<lambda>x acc. set_add acc x) xs acc) = set acc \<union> set xs"
  by (induction xs arbitrary: acc) (auto simp: set_add_def)

lemma isInternalLink_base:
  "this_baseUrl s = base \<Longrightarrow> isInternalLink w s = isInternalLink w (new_crawler base)"
  by (rule ext) (simp add: isInternalLink_def new_crawler_def cong: option.case_cong)

lemma crawlPage_visitedUrls:
  "visitedUrls (fst (crawlPage w s u)) = set_add (visitedUrls s) u"
  by (simp add: crawlPage_def add_links_def Let_def set_add_def split: outcome.splits)

lemma crawlPage_baseUrl: "this_baseUrl (fst (crawlPage w s u)) = this_baseUrl s"
  by (simp add: crawlPage_def add_links_def Let_def split: outcome.splits)

lemma set_add_links:
  "set (internalLinks (add_links w s hrefs)) =
     set (internalLinks s) \<union>
     set (filter (isInternalLink w (new_crawler (this_baseUrl s))) (extractLinks hrefs))"
  using isInternalLink_base [of s "this_baseUrl s" w]
  by (simp add: add_links_def set_fold_set_add)

lemma crawlPage_internalLinks:
  "set (internalLinks (fst (crawlPage w s u))) =
     (if u \<in> set (visitedUrls s) then set (internalLinks s)
      else set (internalLinks s) \<union> set (successors w (this_baseUrl s) u))"
  by (simp add: crawlPage_def Let_def successors_def links_of_def set_add_links extractLinks_def
      split: outcome.splits)

lemma crawlPage_pagesData:
  "map url (pagesData (fst (crawlPage w s u))) =
     map url (pagesData s) @ (if u \<notin> set (visitedUrls s) \<and> has_page (visit w u) then [u] else [])"
  by (simp add: crawlPage_def add_links_def Let_def has_page_def split: outcome.splits)

lemma crawlPage_inv:
  assumes "crawl_inv w base s" "u \<in> reachable w base"
  shows "crawl_inv w base (fst (crawlPage w s u))"
proof (cases "u \<in> set (visitedUrls s)")
  case True
  then have "fst (crawlPage w s u) = s" by (simp add: crawlPage_def)
  with assms show ?thesis by simp
next
  case False
  let ?s' = "fst (crawlPage w s u)"
  have b: "this_baseUrl s = base" using assms(1) by (simp add: crawl_inv_def)
  have v: "visitedUrls ?s' = visitedUrls s @ [u]"
    using False by (simp add: crawlPage_visitedUrls set_add_def)
  have l: "set (internalLinks ?s') = set (internalLinks s) \<union> set (successors w base u)"
    using False b by (simp add: crawlPage_internalLinks)
  have p: "map url (pagesData ?s') = map url (pagesData s) @ (if has_page (visit w u) then [u] else [])"
    using False by (simp add: crawlPage_pagesData)
  have e: "map fst (errors ?s') =
      map fst (errors s) @ (if caught (visit w u) \<noteq> None then [u] else [])"
    using False by (auto simp: crawlPage_errors split: option.splits)
  show ?thesis
    unfolding crawl_inv_def v l p e crawlPage_baseUrl
    using assms False unfolding crawl_inv_def by auto
qed

lemma allSettled_inv:
  assumes "crawl_inv w base s" "set us \<subseteq> reachable w base"
  shows "crawl_inv w base (allSettled w s us) \<and>
         set (visitedUrls (allSettled w s us)) = set (visitedUrls s) \<union> set us"
  using assms
proof (induction us arbitrary: s)
  case Nil
  then show ?case by simp
next
  case (Cons u us)
  have "crawl_inv w base (fst (crawlPage w s u))"
    using Cons.prems by (intro crawlPage_inv) simp_all
  moreover have "set (visitedUrls (fst (crawlPage w s u))) = insert u (set (visitedUrls s))"
    by (auto simp: crawlPage_visitedUrls set_add_def)
  ultimately show ?case
    using Cons.IH [of "fst (crawlPage w s u)"] Cons.prems(2) by auto
qed

lemma allSettled_append:
  "allSettled w s (us @ vs) = allSettled w (allSettled w s us) vs"
  by (induction us arbitrary: s) simp_all

text \<open>In the model the slices of five are run in order, so the \<open>for\<close> loop amounts to
  one pass over \<open>currentBatch\<close>.\<close>

lemma crawlSlices_allSettled: "crawlSlices w s us = allSettled w s us"
proof (induction w s us rule: crawlSlices.induct)
  case (1 w s currentBatch)
  show ?case
  proof (cases "currentBatch = []")
    case True
    then show ?thesis by (simp add: crawlSlices.simps)
  next
    case False
    have "crawlSlices w s currentBatch =
        allSettled w (allSettled w s (take 5 currentBatch)) (drop 5 currentBatch)"
      using False 1 by (subst crawlSlices.simps) simp
    also have "\<dots> = allSettled w s (take 5 currentBatch @ drop 5 currentBatch)"
      by (simp only: allSettled_append)
    finally show ?thesis by simp
  qed
qed

lemma inv_links_reachable:
  assumes "crawl_inv w base s"
  shows "set (internalLinks s) \<subseteq> reachable w base"
  using assms unfolding crawl_inv_def by (auto intro: reachable_step)

lemma inv_closed:
  assumes "crawl_inv w base s" "frontier s = []"
  shows "set (visitedUrls s) = reachable w base"
proof
  show "set (visitedUrls s) \<subseteq> reachable w base"
    using assms(1) by (simp add: crawl_inv_def)
  have links: "set (internalLinks s) \<subseteq> set (visitedUrls s)"
    using assms(2) by (auto simp: frontier_def filter_empty_conv)
  show "reachable w base \<subseteq> set (visitedUrls s)"
  proof (rule reachable_least)
    show "base \<in> set (visitedUrls s)" using assms(1) by (simp add: crawl_inv_def)
  next
    fix u v assume "u \<in> set (visitedUrls s)" "v \<in> set (successors w base u)"
    then have "v \<in> set (internalLinks s)" using assms(1) unfolding crawl_inv_def by blast
    with links show "v \<in> set (visitedUrls s)" by blast
  qed
qed

text \<open>The \<open>while\<close> loop ends when the reachable URLs are finitely many: each round
  visits at least one reachable URL that was not visited before.\<close>

lemma crawlLoop_ends:
  assumes "finite (reachable w base)" "crawl_inv w base s"
  shows "\<exists>s'. crawlLoop w s = Some s' \<and> crawl_inv w base s' \<and> frontier s' = []"
  using assms(2)
proof (induction "card (reachable w base - set (visitedUrls s))" arbitrary: s rule: less_induct)
  case less
  show ?case
  proof (cases "frontier s = []")
    case True
    then have "crawlLoop w s = Some s" by (subst crawlLoop.simps) simp
    with less.prems True show ?thesis by simp
  next
    case False
    let ?s1 = "crawlSlices w s (frontier s)"
    have sub: "set (frontier s) \<subseteq> reachable w base"
      using inv_links_reachable [OF less.prems] by (auto simp: frontier_def)
    have inv1: "crawl_inv w base ?s1"
      and vis1: "set (visitedUrls ?s1) = set (visitedUrls s) \<union> set (frontier s)"
      using allSettled_inv [OF less.prems sub] by (simp_all add: crawlSlices_allSettled)
    obtain u where u: "u \<in> set (frontier s)" using False by (cases "frontier s") auto
    then have new: "u \<notin> set (visitedUrls s)" "u \<in> reachable w base"
      using sub by (auto simp: frontier_def)
    have "reachable w base - set (visitedUrls ?s1) \<subset> reachable w base - set (visitedUrls s)"
      using vis1 u new by auto
    then have "card (reachable w base - set (visitedUrls ?s1)) <
               card (reachable w base - set (visitedUrls s))"
      using assms(1) by (intro psubset_card_mono) simp_all
    from less.hyps [OF this inv1]
    obtain s' where "crawlLoop w ?s1 = Some s'" "crawl_inv w base s'" "frontier s' = []"
      by blast
    moreover have "crawlLoop w s = crawlLoop w ?s1"
      using False by (subst crawlLoop.simps) simp
    ultimately show ?thesis by simp
  qed
qed

lemma first_page_inv:
  assumes "crawlPage w (new_crawler base) base = (s, None)"
  shows "crawl_inv w base s"
proof -
  have s: "s = fst (crawlPage w (new_crawler base) base)" using assms by simp
  have e: "map fst (errors s) = (if caught (visit w base) \<noteq> None then [base] else [])"
    unfolding s by (auto simp: crawlPage_errors new_crawler_def split: option.splits)
  show ?thesis
    unfolding crawl_inv_def e
    unfolding s crawlPage_visitedUrls crawlPage_internalLinks crawlPage_pagesData crawlPage_baseUrl
    by (auto simp: new_crawler_def set_add_def base_reachable)
qed

text \<open>
  Claim C1. When the URLs reachable from the start URL through same-origin links are
  finitely many (cycles allowed), the crawl terminates; unless the very first
  \<open>newPage\<close> call throws (the crawl then aborts with that exception), it ends with an
  empty frontier, the visited URLs are exactly the reachable ones, and no URL is
  handled twice: \<open>pagesData\<close> has one record for each reachable URL whose page data
  could be extracted and none for the others, \<open>errors\<close> one entry for each reachable
  URL whose \<open>try\<close> block threw and none for the others.
\<close>

theorem crawl_visits_reachable_once:
  assumes "finite (reachable w base)"
  shows "\<exists>r. crawlSite w base = Some r \<and>
     (case r of
        Inl e \<Rightarrow> visit w base = NewPageFails e
      | Inr s \<Rightarrow>
          set (visitedUrls s) = reachable w base \<and> distinct (visitedUrls s) \<and>
          frontier s = [] \<and>
          distinct (map url (pagesData s)) \<and>
          set (map url (pagesData s)) = {u \<in> reachable w base. has_page (visit w u)} \<and>
          distinct (map fst (errors s)) \<and>
          set (map fst (errors s)) = {u \<in> reachable w base. caught (visit w u) \<noteq> None})"
proof (cases "crawlPage w (new_crawler base) base")
  case (Pair s1 rejection)
  show ?thesis
  proof (cases rejection)
    case (Some e)
    have "visit w base = NewPageFails e"
      using Pair Some
      by (auto simp: crawlPage_def new_crawler_def Let_def split: outcome.splits)
    then show ?thesis using Pair Some by (simp add: crawlSite_def)
  next
    case None
    have "crawl_inv w base s1" using Pair None by (intro first_page_inv) simp
    from crawlLoop_ends [OF assms this]
    obtain s where s: "crawlLoop w s1 = Some s" "crawl_inv w base s" "frontier s = []"
      by blast
    have "set (visitedUrls s) = reachable w base" using inv_closed [OF s(2,3)] .
    then show ?thesis
      using s Pair None unfolding crawl_inv_def by (simp add: crawlSite_def)
  qed
qed

theorem crawl_visits_reachable_once_witness:
  "finite (reachable cyclic_site ''https://s/'') \<and>
   reachable cyclic_site ''https://s/'' = set [''https://s/'', ''https://s/a'', ''https://s/b''] \<and>
   map_option (map_sum id visitedUrls) (crawlSite cyclic_site ''https://s/'') =
     Some (Inr [''https://s/'', ''https://s/a'', ''https://s/b'']) \<and>
   map_option (map_sum id (map fst \<circ> errors)) (crawlSite cyclic_site ''https://s/'') =
     Some (Inr [''https://s/b''])"
proof -
  let ?base = "''https://s/''"
  let ?V = "set [''https://s/'', ''https://s/a'', ''https://s/b'']"
  have succ: "successors cyclic_site ?base ''https://s/'' = [''https://s/a'']"
    "successors cyclic_site ?base ''https://s/a'' = [''https://s/'', ''https://s/b'', ''https://s/a'']"
    "successors cyclic_site ?base ''https://s/b'' = []"
    by code_simp+
  have "reachable cyclic_site ?base \<subseteq> ?V"
    by (rule reachable_least) (use succ in auto)
  then have fin: "finite (reachable cyclic_site ?base)"
    by (rule finite_subset) simp
  have vis: "map_option (map_sum id visitedUrls) (crawlSite cyclic_site ?base) =
      Some (Inr [''https://s/'', ''https://s/a'', ''https://s/b''])"
    by code_simp
  have err: "map_option (map_sum id (map fst \<circ> errors)) (crawlSite cyclic_site ?base) =
      Some (Inr [''https://s/b''])"
    by code_simp
  from crawl_visits_reachable_once [OF fin]
  obtain r where r: "crawlSite cyclic_site ?base = Some r"
    and res: "case r of
        Inl e \<Rightarrow> visit cyclic_site ?base = NewPageFails e
      | Inr s \<Rightarrow> set (visitedUrls s) = reachable cyclic_site ?base \<and> distinct (visitedUrls s) \<and>
          frontier s = [] \<and>
          distinct (map url (pagesData s)) \<and>
          set (map url (pagesData s)) = {u \<in> reachable cyclic_site ?base. has_page (visit cyclic_site u)} \<and>
          distinct (map fst (errors s)) \<and>
          set (map fst (errors s)) = {u \<in> reachable cyclic_site ?base. caught (visit cyclic_site u) \<noteq> None}"
    by blast
  from vis r obtain s where s: "r = Inr s" "visitedUrls s = [''https://s/'', ''https://s/a'', ''https://s/b'']"
    by (cases r) auto
  with res have "reachable cyclic_site ?base = ?V" by simp
  with fin vis err show ?thesis by blast
qed

end
